theory Spec2Isabelle
  imports Main "HOL-Library.Word"
begin

section \<open>Bytes, Python strings, errors\<close>

text \<open>
  The program is \<^verbatim>\<open>main.py\<close>, a downloader that archives the history of a chat channel
  in one file: a 32-byte metadata frame followed by compressed batches.

  A \<^verbatim>\<open>bytes\<close> object is a list of 8-bit words. A Python \<^verbatim>\<open>str\<close> is a list of code
  points, so that \<open>length\<close> is Python's \<^verbatim>\<open>len\<close> (it counts characters, not bytes).
  Python integers are unbounded: \<open>int\<close>.
\<close>

type_synonym byte = "8 word"
type_synonym pystr = "nat list"
type_synonym path = pystr

text \<open>
  The exceptions the modelled code can raise. \<open>ValueError\<close> carries the message of the
  \<^verbatim>\<open>raise\<close>; \<open>StructError\<close> is \<^verbatim>\<open>struct.error\<close>; \<open>HTTPException\<close> stands for a
  failure of the history request.
\<close>

datatype error =
    FileNotFoundError
  | ValueError string
  | StructError
  | UnicodeEncodeError
  | HTTPException

text \<open>How the process ends: \<^verbatim>\<open>sys.exit(code)\<close> or an exception that nothing catches.\<close>

datatype outcome = Exit int | Raised error

section \<open>The struct module\<close>

datatype byteorder = LittleEndian | BigEndian

fun to_bytes_le :: "nat \<Rightarrow> int \<Rightarrow> byte list" where
  "to_bytes_le 0 x = []"
| "to_bytes_le (Suc n) x = word_of_int (x mod 256) # to_bytes_le n (x div 256)"

fun from_bytes_le :: "byte list \<Rightarrow> int" where
  "from_bytes_le [] = 0"
| "from_bytes_le (b # bs) = uint b + 256 * from_bytes_le bs"

definition int_to_bytes :: "byteorder \<Rightarrow> nat \<Rightarrow> int \<Rightarrow> byte list" where
  "int_to_bytes order width x =
     (case order of
        LittleEndian \<Rightarrow> to_bytes_le width x
      | BigEndian \<Rightarrow> rev (to_bytes_le width x))"

definition int_from_bytes :: "byteorder \<Rightarrow> byte list \<Rightarrow> int" where
  "int_from_bytes order bs =
     (case order of
        LittleEndian \<Rightarrow> from_bytes_le bs
      | BigEndian \<Rightarrow> from_bytes_le (rev bs))"

text \<open>
  One unsigned item of \<open>width\<close> bytes (\<^verbatim>\<open>I\<close> is 4 bytes, \<^verbatim>\<open>Q\<close> is 8): \<^verbatim>\<open>struct.pack\<close>
  raises \<^verbatim>\<open>struct.error\<close> on a value outside \<open>0 .. 256 ^ width - 1\<close>.
\<close>

definition struct_pack_uint :: "byteorder \<Rightarrow> nat \<Rightarrow> int \<Rightarrow> error + byte list" where
  "struct_pack_uint order width x =
     (if x < 0 \<or> 256 ^ width \<le> x then Inl StructError
      else Inr (int_to_bytes order width x))"

fun struct_pack_Qs :: "byteorder \<Rightarrow> int list \<Rightarrow> error + byte list" where
  "struct_pack_Qs order [] = Inr []"
| "struct_pack_Qs order (x # xs) =
     (case struct_pack_uint order 8 x of
        Inl e \<Rightarrow> Inl e
      | Inr b \<Rightarrow>
          (case struct_pack_Qs order xs of
             Inl e \<Rightarrow> Inl e
           | Inr bs \<Rightarrow> Inr (b @ bs)))"

text \<open>\<^verbatim>\<open>struct.pack('<3Q', *vals)\<close> and \<^verbatim>\<open>struct.pack('>3Q', ...)\<close>: exactly three items.\<close>

definition struct_pack_3Q :: "byteorder \<Rightarrow> int list \<Rightarrow> error + byte list" where
  "struct_pack_3Q order vals =
     (if length vals \<noteq> 3 then Inl StructError else struct_pack_Qs order vals)"

text \<open>\<^verbatim>\<open>struct.unpack('<I', b)[0]\<close>: the buffer must hold exactly 4 bytes.\<close>

definition struct_unpack_I :: "byteorder \<Rightarrow> byte list \<Rightarrow> error + int" where
  "struct_unpack_I order bs =
     (if length bs \<noteq> 4 then Inl StructError else Inr (int_from_bytes order bs))"

text \<open>\<^verbatim>\<open>struct.unpack('<3Q', b)\<close>: the buffer must hold exactly 24 bytes.\<close>

definition struct_unpack_3Q :: "byteorder \<Rightarrow> byte list \<Rightarrow> error + int \<times> int \<times> int" where
  "struct_unpack_3Q order bs =
     (if length bs \<noteq> 24 then Inl StructError
      else Inr (int_from_bytes order (take 8 bs),
                int_from_bytes order (take 8 (drop 8 bs)),
                int_from_bytes order (take 8 (drop 16 bs))))"

section \<open>UTF-8\<close>

text \<open>
  \<^verbatim>\<open>str.encode('utf-8')\<close>: one to four bytes for a code point, and
  \<^verbatim>\<open>UnicodeEncodeError\<close> on a surrogate (\<open>0xD800 .. 0xDFFF\<close>). A Python string holds no
  code point above \<open>0x10FFFF\<close>; the encoder refuses them as well.
\<close>

definition utf8_char :: "nat \<Rightarrow> error + byte list" where
  "utf8_char c =
     (if c < 0x80 then Inr [of_nat c]
      else if c < 0x800 then Inr [of_nat (0xC0 + c div 64), of_nat (0x80 + c mod 64)]
      else if 0xD800 \<le> c \<and> c < 0xE000 then Inl UnicodeEncodeError
      else if c < 0x10000 then
        Inr [of_nat (0xE0 + c div 4096), of_nat (0x80 + c div 64 mod 64),
             of_nat (0x80 + c mod 64)]
      else if c < 0x110000 then
        Inr [of_nat (0xF0 + c div 262144), of_nat (0x80 + c div 4096 mod 64),
             of_nat (0x80 + c div 64 mod 64), of_nat (0x80 + c mod 64)]
      else Inl UnicodeEncodeError)"

fun encode_utf8 :: "pystr \<Rightarrow> error + byte list" where
  "encode_utf8 [] = Inr []"
| "encode_utf8 (c # cs) =
     (case utf8_char c of
        Inl e \<Rightarrow> Inl e
      | Inr b \<Rightarrow>
          (case encode_utf8 cs of
             Inl e \<Rightarrow> Inl e
           | Inr bs \<Rightarrow> Inr (b @ bs)))"

section \<open>The disk\<close>

text \<open>
  The file system maps a path to the content of the file there, if there is one. The disk
  also keeps the list of the writes made to it, oldest first: the order of the writes of a
  commit is part of what the archive promises.
\<close>

datatype io_event =
    Truncated path
  | Created path
  | WroteAt path nat "byte list"

record disk =
  files :: "path \<Rightarrow> byte list option"
  writes :: "io_event list"

text \<open>
  \<^verbatim>\<open>file.write(data)\<close> at position \<open>pos\<close>: the bytes there are replaced, the file grows
  when the write ends beyond its end (a gap is filled with zero bytes).
\<close>

definition write_at :: "byte list \<Rightarrow> nat \<Rightarrow> byte list \<Rightarrow> byte list" where
  "write_at f pos data =
     take pos f @ replicate (pos - length f) 0 @ data @ drop (pos + length data) f"

definition file_write :: "disk \<Rightarrow> path \<Rightarrow> nat \<Rightarrow> byte list \<Rightarrow> byte list \<Rightarrow> disk" where
  "file_write d file_path pos f data =
     d\<lparr>files := (files d)(file_path \<mapsto> write_at f pos data),
       writes := writes d @ [WroteAt file_path pos data]\<rparr>"

section \<open>The metadata frame\<close>

definition METADATA_SIZE :: int where
  "METADATA_SIZE = 3 * 8"

definition MAGIC_ZSTD_HEADER :: "byte list" where
  "MAGIC_ZSTD_HEADER = [0x50, 0x2A, 0x4D, 0x18]"

text \<open>
  \<^verbatim>\<open>read_metadata\<close>: opens the file for reading, reads 4 bytes of magic, 4 bytes of length
  and \<^verbatim>\<open>METADATA_SIZE\<close> bytes of payload, one after the other. A read at the end of the
  file returns fewer bytes, and \<^verbatim>\<open>struct.unpack\<close> raises on a short buffer.
\<close>

definition read_metadata :: "disk \<Rightarrow> path \<Rightarrow> error + int \<times> int \<times> int" where
  "read_metadata d file_path =
     (case files d file_path of
        None \<Rightarrow> Inl FileNotFoundError
      | Some f \<Rightarrow>
          (let magic_header = take 4 f in
           if magic_header \<noteq> MAGIC_ZSTD_HEADER
           then Inl (ValueError ''Not a valid skippable frame format.'')
           else
             (case struct_unpack_I LittleEndian (take 4 (drop 4 f)) of
                Inl e \<Rightarrow> Inl e
              | Inr frame_length \<Rightarrow>
                  if frame_length \<noteq> METADATA_SIZE
                  then Inl (ValueError ''Invalid metadata size'')
                  else
                    (let frame_data = take (nat METADATA_SIZE) (drop 8 f)
                     in struct_unpack_3Q LittleEndian frame_data))))"

text \<open>
  \<^verbatim>\<open>overwrite_metadata\<close>: opens the file for reading and writing (it must exist), checks
  the magic and the length as \<^verbatim>\<open>read_metadata\<close> does, seeks to offset 8, packs the new
  values and writes them. Nothing is written when any of the steps raises.
\<close>

definition overwrite_metadata :: "disk \<Rightarrow> path \<Rightarrow> int list \<Rightarrow> error + disk" where
  "overwrite_metadata d file_path new_data =
     (case files d file_path of
        None \<Rightarrow> Inl FileNotFoundError
      | Some f \<Rightarrow>
          (let magic_header = take 4 f in
           if magic_header \<noteq> MAGIC_ZSTD_HEADER
           then Inl (ValueError ''Not a valid skippable frame format.'')
           else
             (case struct_unpack_I LittleEndian (take 4 (drop 4 f)) of
                Inl e \<Rightarrow> Inl e
              | Inr frame_length \<Rightarrow>
                  if frame_length \<noteq> METADATA_SIZE
                  then Inl (ValueError ''Invalid metadata size'')
                  else
                    (case struct_pack_3Q LittleEndian new_data of
                       Inl e \<Rightarrow> Inl e
                     | Inr frame_data \<Rightarrow> Inr (file_write d file_path 8 f frame_data)))))"

text \<open>
  \<^verbatim>\<open>initialize_metadata\<close>: opens the file with mode \<^verbatim>\<open>'wb'\<close>, which creates it or empties
  the one that is there, and writes the magic, the length and the payload
  \<^verbatim>\<open>struct.pack('>3Q', 0, 0, 0)\<close> one after the other.
\<close>

definition initialize_metadata :: "disk \<Rightarrow> path \<Rightarrow> error + disk" where
  "initialize_metadata d file_path =
     (let d0 = d\<lparr>files := (files d)(file_path \<mapsto> []),
                 writes := writes d @ [Truncated file_path]\<rparr>;
          d1 = file_write d0 file_path 0 [] MAGIC_ZSTD_HEADER
      in case struct_pack_uint LittleEndian 4 METADATA_SIZE of
           Inl e \<Rightarrow> Inl e
         | Inr len_bytes \<Rightarrow>
             (let d2 = file_write d1 file_path 4 MAGIC_ZSTD_HEADER len_bytes
              in case struct_pack_3Q BigEndian [0, 0, 0] of
                   Inl e \<Rightarrow> Inl e
                 | Inr frame_data \<Rightarrow>
                     Inr (file_write d2 file_path 8 (MAGIC_ZSTD_HEADER @ len_bytes) frame_data)))"

section \<open>Appending a batch\<close>

text \<open>
  \<^verbatim>\<open>append_batch\<close>: opens the file with mode \<^verbatim>\<open>'ab'\<close> (it is created empty when it is not
  there), encodes the text as UTF-8, compresses the bytes and writes them at the end of the
  file. The compressor is zstandard's, at level 22; it is a parameter \<open>compress\<close> of the
  model. The result is the disk, and the exception if the encoding raised one.
\<close>

definition append_batch ::
  "(byte list \<Rightarrow> byte list) \<Rightarrow> disk \<Rightarrow> path \<Rightarrow> pystr \<Rightarrow> error option \<times> disk" where
  "append_batch compress d file_path log_text =
     (let d0 = (case files d file_path of
                  None \<Rightarrow> d\<lparr>files := (files d)(file_path \<mapsto> []),
                            writes := writes d @ [Created file_path]\<rparr>
                | Some f \<Rightarrow> d);
          f = (case files d file_path of None \<Rightarrow> [] | Some f \<Rightarrow> f)
      in case encode_utf8 log_text of
           Inl e \<Rightarrow> (Some e, d0)
         | Inr text_bytes \<Rightarrow>
             (let compressed_data = compress text_bytes
              in (None, file_write d0 file_path (length f) f compressed_data)))"

section \<open>The transcript of a batch\<close>

record message =
  msg_id :: int
  author_display_name :: pystr
  content :: pystr

text \<open>
  The loop over the messages of a batch: a message with a non-empty content adds
  \<^verbatim>\<open>f"\0<{message.author.display_name}>\0{message.content}\n"\<close> to the log.
  The code points are NUL = 0, \<^verbatim>\<open><\<close> = 60, \<^verbatim>\<open>>\<close> = 62 and newline = 10.
\<close>

fun format_messages :: "pystr \<Rightarrow> message list \<Rightarrow> pystr" where
  "format_messages formatted_log [] = formatted_log"
| "format_messages formatted_log (m # ms) =
     format_messages
       (if length (content m) \<noteq> 0
        then formatted_log @ ([0, 60] @ author_display_name m @ [62, 0] @ content m @ [10])
        else formatted_log)
       ms"

text \<open>
  The transcript as the specification words it: one line per message with a non-empty body,
  in the order of the batch. As bytes, the line is the sentinel \<open>0x00\<close>, \<^verbatim>\<open><\<close>, the UTF-8
  of the author, \<^verbatim>\<open>>\<close>, the sentinel, the UTF-8 of the body and a newline.
\<close>

definition transcript_line :: "message \<Rightarrow> pystr" where
  "transcript_line m = [0, 60] @ author_display_name m @ [62, 0] @ content m @ [10]"

definition spec_transcript :: "message list \<Rightarrow> pystr" where
  "spec_transcript ms = concat (map transcript_line (filter (\<lambda>m. content m \<noteq> []) ms))"

definition line_bytes :: "byte list \<Rightarrow> byte list \<Rightarrow> byte list" where
  "line_bytes author body = [0x00, 0x3C] @ author @ [0x3E, 0x00] @ body @ [0x0A]"

section \<open>The session\<close>

text \<open>
  The globals \<^verbatim>\<open>in_critical_section\<close> and \<^verbatim>\<open>shutdown_event\<close>, the three counters of
  \<^verbatim>\<open>on_ready\<close> and the disk make the state of a session.
\<close>

record session =
  last_read_message :: "int option"
  total_messages_read :: int
  uncompressed_size :: int
  in_critical_section :: bool
  shutdown_event :: bool
  dsk :: disk

text \<open>
  \<^verbatim>\<open>handle_signal\<close>: in the critical section it sets the event and returns, outside it
  calls \<^verbatim>\<open>sys.exit(0)\<close>.
\<close>

definition handle_signal :: "session \<Rightarrow> outcome + session" where
  "handle_signal s =
     (if in_critical_section s then Inr (s\<lparr>shutdown_event := True\<rparr>)
      else Inl (Exit 0))"

text \<open>
  The places of one turn of the loop where a signal can reach the process: while the
  history is awaited, while the transcript and the counters are computed, in the critical
  section before the metadata is written, between the two writes, after the append, after
  the critical section before the event is tested, and after the test. The handlers are
  registered with the event loop, which runs them between the steps of the coroutine; the
  model lets a signal arrive at every one of the places.
\<close>

datatype sigpoint =
    SigFetch | SigPrepare | SigEnter | SigBetween | SigLeave | SigCheck | SigTail

definition deliver :: "bool \<Rightarrow> session \<Rightarrow> outcome + session" where
  "deliver arrives s = (if arrives then handle_signal s else Inr s)"

text \<open>
  What the program is given: the channel that \<^verbatim>\<open>get_channel\<close> finds for an id, the
  result of the \<open>n\<close>-th call of \<^verbatim>\<open>channel.history(limit, after, oldest_first=True)\<close>, and
  the signals that arrive in the \<open>n\<close>-th turn of the loop.
\<close>

datatype channel = NamedChannel pystr | PrivateChannel pystr

record client =
  get_channel :: "int \<Rightarrow> channel option"
  history :: "nat \<Rightarrow> int \<Rightarrow> int option \<Rightarrow> error + message list"
  signal :: "nat \<Rightarrow> sigpoint \<Rightarrow> bool"

record arguments =
  arg_channel :: int
  arg_path :: "path option"
  arg_batch :: int

text \<open>\<^verbatim>\<open>get_file_path\<close>: the path of the arguments, or the channel's name and \<^verbatim>\<open>.zst\<close>.\<close>

definition get_file_path :: "arguments \<Rightarrow> pystr \<Rightarrow> path" where
  "get_file_path args channel_name =
     (case arg_path args of
        None \<Rightarrow> channel_name @ [46, 122, 115, 116]
      | Some p \<Rightarrow> p)"

text \<open>
  The critical section of a turn: the flag is set, the metadata is overwritten, the batch
  is appended, the flag is cleared. The result is the session after it, or how the process
  ended inside it.
\<close>

definition commit ::
  "(byte list \<Rightarrow> byte list) \<Rightarrow> (sigpoint \<Rightarrow> bool) \<Rightarrow> path \<Rightarrow> int list \<Rightarrow> pystr \<Rightarrow> session
     \<Rightarrow> outcome \<times> session + session" where
  "commit compress sig file_path new_data formatted_log s0 =
     (let s1 = s0\<lparr>in_critical_section := True\<rparr> in
      case deliver (sig SigEnter) s1 of
        Inl out \<Rightarrow> Inl (out, s1)
      | Inr s2 \<Rightarrow>
          (case overwrite_metadata (dsk s2) file_path new_data of
             Inl e \<Rightarrow> Inl (Raised e, s2)
           | Inr d \<Rightarrow>
               (let s3 = s2\<lparr>dsk := d\<rparr> in
                case deliver (sig SigBetween) s3 of
                  Inl out \<Rightarrow> Inl (out, s3)
                | Inr s4 \<Rightarrow>
                    (case append_batch compress (dsk s4) file_path formatted_log of
                       (Some e, d') \<Rightarrow> Inl (Raised e, s4\<lparr>dsk := d'\<rparr>)
                     | (None, d') \<Rightarrow>
                         (let s5 = s4\<lparr>dsk := d'\<rparr> in
                          case deliver (sig SigLeave) s5 of
                            Inl out \<Rightarrow> Inl (out, s5)
                          | Inr s6 \<Rightarrow> Inr (s6\<lparr>in_critical_section := False\<rparr>))))))"

text \<open>
  One turn of the \<^verbatim>\<open>while True\<close> loop: it goes on to the next turn, leaves the loop
  with \<^verbatim>\<open>break\<close>, or the process ends in it.
\<close>

datatype step = Continue session | Break session | Stop outcome session

definition loop_body ::
  "client \<Rightarrow> arguments \<Rightarrow> (byte list \<Rightarrow> byte list) \<Rightarrow> path \<Rightarrow> nat \<Rightarrow> session \<Rightarrow> step" where
  "loop_body cl args compress file_path n s0 =
     (case deliver (signal cl n SigFetch) s0 of
        Inl out \<Rightarrow> Stop out s0
      | Inr s1 \<Rightarrow>
          (case history cl n (arg_batch args) (last_read_message s1) of
             Inl e \<Rightarrow> Stop (Raised e) s1
           | Inr messages \<Rightarrow>
               if length messages = 0 then Break s1
               else
                 (let formatted_log = format_messages [] messages;
                      s2 = s1\<lparr>last_read_message := Some (msg_id (last messages)),
                              total_messages_read :=
                                total_messages_read s1 + int (length messages),
                              uncompressed_size :=
                                uncompressed_size s1 + int (length formatted_log)\<rparr>
                  in case deliver (signal cl n SigPrepare) s2 of
                       Inl out \<Rightarrow> Stop out s2
                     | Inr s3 \<Rightarrow>
                         (case commit compress (signal cl n) file_path
                                 [msg_id (last messages), total_messages_read s3,
                                  uncompressed_size s3]
                                 formatted_log s3 of
                            Inl (out, s) \<Rightarrow> Stop out s
                          | Inr s4 \<Rightarrow>
                              (case deliver (signal cl n SigCheck) s4 of
                                 Inl out \<Rightarrow> Stop out s4
                               | Inr s5 \<Rightarrow>
                                   if shutdown_event s5 then Stop (Exit 0) s5
                                   else
                                     (case deliver (signal cl n SigTail) s5 of
                                        Inl out \<Rightarrow> Stop out s5
                                      | Inr s6 \<Rightarrow>
                                          if int (length messages) < arg_batch args
                                          then Break s6
                                          else Continue s6))))))"

text \<open>
  The loop, with fuel: \<open>Running\<close> is the loop that has more turns to do when the fuel is
  spent. After a \<^verbatim>\<open>break\<close> the client is closed and the process exits with 0.
\<close>

datatype run = Finished outcome session | Running session

fun session_loop ::
  "client \<Rightarrow> arguments \<Rightarrow> (byte list \<Rightarrow> byte list) \<Rightarrow> path \<Rightarrow> nat \<Rightarrow> nat \<Rightarrow> session \<Rightarrow> run"
  where
  "session_loop cl args compress file_path 0 n s = Running s"
| "session_loop cl args compress file_path (Suc fuel) n s =
     (case loop_body cl args compress file_path n s of
        Continue s' \<Rightarrow> session_loop cl args compress file_path fuel (Suc n) s'
      | Break s' \<Rightarrow> Finished (Exit 0) s'
      | Stop out s' \<Rightarrow> Finished out s')"

text \<open>
  \<^verbatim>\<open>on_ready\<close>: finds the channel (exit 1 when there is none) and the path, initializes
  the file when there is none at the path, reads the metadata and runs the loop. The
  result is how the process ended, if it did within the fuel, and the disk it left.
\<close>

definition channel_name_of :: "channel \<Rightarrow> pystr" where
  "channel_name_of ch = (case ch of NamedChannel nm \<Rightarrow> nm | PrivateChannel nm \<Rightarrow> nm)"

definition on_ready ::
  "client \<Rightarrow> arguments \<Rightarrow> (byte list \<Rightarrow> byte list) \<Rightarrow> nat \<Rightarrow> disk \<Rightarrow> outcome option \<times> disk"
  where
  "on_ready cl args compress fuel d =
     (case get_channel cl (arg_channel args) of
        None \<Rightarrow> (Some (Exit 1), d)
      | Some ch \<Rightarrow>
          (let file_path = get_file_path args (channel_name_of ch) in
           case (if files d file_path = None then initialize_metadata d file_path else Inr d) of
             Inl e \<Rightarrow> (Some (Raised e), d)
           | Inr d1 \<Rightarrow>
               (case read_metadata d1 file_path of
                  Inl e \<Rightarrow> (Some (Raised e), d1)
                | Inr (last_id, total_read, size_read) \<Rightarrow>
                    (case session_loop cl args compress file_path fuel 0
                            \<lparr>last_read_message = (if last_id = 0 then None else Some last_id),
                             total_messages_read = total_read,
                             uncompressed_size = size_read,
                             in_critical_section = False,
                             shutdown_event = False,
                             dsk = d1\<rparr> of
                       Finished out s \<Rightarrow> (Some out, dsk s)
                     | Running s \<Rightarrow> (None, dsk s)))))"

section \<open>Accepted files and counters\<close>

text \<open>
  A file is accepted by the validation of \<^verbatim>\<open>read_metadata\<close> and \<^verbatim>\<open>overwrite_metadata\<close>
  when neither of the two checks raises: the magic is there and the length field unpacks
  to \<^verbatim>\<open>METADATA_SIZE\<close>. A counter fits the frame when it is an unsigned 64-bit value.
\<close>

definition header_accepted :: "byte list \<Rightarrow> bool" where
  "header_accepted f =
     (take 4 f = MAGIC_ZSTD_HEADER \<and>
      struct_unpack_I LittleEndian (take 4 (drop 4 f)) = Inr METADATA_SIZE)"

definition is_u64 :: "int \<Rightarrow> bool" where
  "is_u64 x = (0 \<le> x \<and> x < 2 ^ 64)"

text \<open>
  The 32 bytes of a new archive, and the payload of three counters as
  \<^verbatim>\<open>struct.pack('<3Q', a, b, c)\<close> lays it out.
\<close>

definition fresh_frame :: "byte list" where
  "fresh_frame = MAGIC_ZSTD_HEADER @ [24, 0, 0, 0] @ replicate 24 0"

definition counters_le :: "int \<Rightarrow> int \<Rightarrow> int \<Rightarrow> byte list" where
  "counters_le a b c = to_bytes_le 8 a @ to_bytes_le 8 b @ to_bytes_le 8 c"

section \<open>The state a turn leaves\<close>

text \<open>The session that a turn of the loop leaves, however the turn ends.\<close>

fun session_of :: "step \<Rightarrow> session" where
  "session_of (Continue s) = s"
| "session_of (Break s) = s"
| "session_of (Stop out s) = s"

text \<open>
  The counters of \<^verbatim>\<open>on_ready\<close> after the three assignments that follow the transcript
  loop, and the list that is handed to \<^verbatim>\<open>overwrite_metadata\<close>.
\<close>

definition counted :: "session \<Rightarrow> message list \<Rightarrow> session" where
  "counted s ms =
     s\<lparr>last_read_message := Some (msg_id (last ms)),
       total_messages_read := total_messages_read s + int (length ms),
       uncompressed_size := uncompressed_size s + int (length (format_messages [] ms))\<rparr>"

definition new_data_of :: "session \<Rightarrow> message list \<Rightarrow> int list" where
  "new_data_of s ms =
     [msg_id (last ms), total_messages_read s + int (length ms),
      uncompressed_size s + int (length (format_messages [] ms))]"

text \<open>
  The disk after the two writes of a commit on the file \<open>f\<close>: the payload at offset 8,
  then the chunk at the end of the file.
\<close>

definition commit_disk :: "disk \<Rightarrow> path \<Rightarrow> byte list \<Rightarrow> byte list \<Rightarrow> byte list \<Rightarrow> disk" where
  "commit_disk d p f payload chunk =
     \<lparr>files = (files d)(p \<mapsto> take 8 f @ payload @ drop 32 f @ chunk),
      writes = writes d @ [WroteAt p 8 payload, WroteAt p (max 32 (length f)) chunk]\<rparr>"

section \<open>A small archive and a small batch\<close>

text \<open>
  Two messages, the second with an empty body, an archive that was just initialized at
  the path \<^verbatim>\<open>a\<close>, and a client whose first request returns the given batch; a signal
  arrives between the two writes of the first turn when \<open>sig\<close> is set.
\<close>

definition example_messages :: "message list" where
  "example_messages =
     [\<lparr>msg_id = 5, author_display_name = [97], content = [104, 105]\<rparr>,
      \<lparr>msg_id = 9, author_display_name = [98], content = []\<rparr>]"

definition example_disk :: disk where
  "example_disk = \<lparr>files = Map.empty([97] \<mapsto> fresh_frame), writes = []\<rparr>"

definition example_session :: session where
  "example_session =
     \<lparr>last_read_message = None, total_messages_read = 0, uncompressed_size = 0,
      in_critical_section = False, shutdown_event = False, dsk = example_disk\<rparr>"

definition example_client :: "bool \<Rightarrow> message list \<Rightarrow> client" where
  "example_client sig ms =
     \<lparr>get_channel = (\<lambda>i. Some (NamedChannel [99])),
      history = (\<lambda>n lim after. Inr (if n = 0 then ms else [])),
      signal = (\<lambda>n pt. sig \<and> n = 0 \<and> pt = SigBetween)\<rparr>"

definition example_args :: arguments where
  "example_args = \<lparr>arg_channel = 1, arg_path = Some [97], arg_batch = 100\<rparr>"

section \<open>The bytes of a string\<close>

text \<open>
  Whether \<^verbatim>\<open>s.encode('utf-8')\<close> returns, and the bytes it returns when it does.
\<close>

definition encodable :: "pystr \<Rightarrow> bool" where
  "encodable s = (case encode_utf8 s of Inl e \<Rightarrow> False | Inr b \<Rightarrow> True)"

definition utf8_bytes :: "pystr \<Rightarrow> byte list" where
  "utf8_bytes s = (case encode_utf8 s of Inl e \<Rightarrow> [] | Inr b \<Rightarrow> b)"

text \<open>
  A batch of one message whose body is the one character U+00E9, which is two bytes in
  UTF-8.
\<close>

definition accented_messages :: "message list" where
  "accented_messages = [\<lparr>msg_id = 5, author_display_name = [97], content = [233]\<rparr>]"

section \<open>The counters that a run commits\<close>

text \<open>
  The payloads written at offset 8 of the file at \<open>p\<close>, oldest first, and the counters
  they hold as \<^verbatim>\<open>read_metadata\<close> would unpack them.
\<close>

fun payload_writes :: "path \<Rightarrow> io_event list \<Rightarrow> byte list list" where
  "payload_writes p [] = []"
| "payload_writes p (WroteAt q pos data # es) =
     (if q = p \<and> pos = 8 then data # payload_writes p es else payload_writes p es)"
| "payload_writes p (Truncated q # es) = payload_writes p es"
| "payload_writes p (Created q # es) = payload_writes p es"

definition decode_counters :: "byte list \<Rightarrow> int \<times> int \<times> int" where
  "decode_counters data =
     (case struct_unpack_3Q LittleEndian data of Inl e \<Rightarrow> (0, 0, 0) | Inr v \<Rightarrow> v)"

definition committed_counters :: "path \<Rightarrow> io_event list \<Rightarrow> (int \<times> int \<times> int) list" where
  "committed_counters p es = map decode_counters (payload_writes p es)"

text \<open>
  From one triple of counters to the next, the id of the last message and the count of
  messages both grow.
\<close>

definition advances :: "int \<times> int \<times> int \<Rightarrow> int \<times> int \<times> int \<Rightarrow> bool" where
  "advances v w = (fst v < fst w \<and> fst (snd v) < fst (snd w))"

text \<open>The cursor of a session: the id after which it fetches, 0 for \<^verbatim>\<open>None\<close>.\<close>

definition cursor_of :: "session \<Rightarrow> int" where
  "cursor_of s = (case last_read_message s of None \<Rightarrow> 0 | Some a \<Rightarrow> a)"

text \<open>
  What is asked of the history: every message it returns has an id above the cursor it
  was given (above 0 when it was given none).
\<close>

definition fetch_after_cursor :: "client \<Rightarrow> bool" where
  "fetch_after_cursor cl =
     (\<forall>n lim after ms. history cl n lim after = Inr ms \<longrightarrow>
        (\<forall>m \<in> set ms. (case after of None \<Rightarrow> 0 | Some a \<Rightarrow> a) < msg_id m))"

fun final_session :: "run \<Rightarrow> session" where
  "final_session (Finished out s) = s"
| "final_session (Running s) = s"

text \<open>
  Sessions run one after the other on the same disk, each with its client, its arguments
  and the number of turns it is given before the process is stopped.
\<close>

fun resumed_sessions ::
  "(client \<times> arguments \<times> nat) list \<Rightarrow> (byte list \<Rightarrow> byte list) \<Rightarrow> disk \<Rightarrow> disk" where
  "resumed_sessions [] compress d = d"
| "resumed_sessions ((cl, args, fuel) # rest) compress d =
     resumed_sessions rest compress (snd (on_ready cl args compress fuel d))"

text \<open>
  The session works on the file at \<open>p\<close>, or finds no channel and exits at once. The
  counters stored in the file at \<open>p\<close>: none when the file cannot be read.
\<close>

definition session_path :: "client \<Rightarrow> arguments \<Rightarrow> path \<Rightarrow> bool" where
  "session_path cl args p =
     (case get_channel cl (arg_channel args) of
        None \<Rightarrow> True
      | Some ch \<Rightarrow> get_file_path args (channel_name_of ch) = p)"

definition stored :: "disk \<Rightarrow> path \<Rightarrow> (int \<times> int \<times> int) list" where
  "stored d p = (case read_metadata d p of Inl e \<Rightarrow> [] | Inr v \<Rightarrow> [v])"

text \<open>
  A client over a fixed list of messages: a request returns the messages whose id is
  above the cursor, whatever the limit, and no signal arrives.
\<close>

definition archive_client :: "message list \<Rightarrow> client" where
  "archive_client ms =
     \<lparr>get_channel = (\<lambda>i. Some (NamedChannel [99])),
      history = (\<lambda>n lim after.
         Inr (filter (\<lambda>m. (case after of None \<Rightarrow> 0 | Some a \<Rightarrow> a) < msg_id m) ms)),
      signal = (\<lambda>n pt. False)\<rparr>"

section \<open>The files a run empties\<close>

text \<open>
  The paths that were opened with mode \<^verbatim>\<open>'wb'\<close>, oldest first. Of the modelled
  functions only \<^verbatim>\<open>initialize_metadata\<close> opens a file so.
\<close>

fun truncations :: "io_event list \<Rightarrow> path list" where
  "truncations [] = []"
| "truncations (Truncated q # es) = q # truncations es"
| "truncations (Created q # es) = truncations es"
| "truncations (WroteAt q pos data # es) = truncations es"

section \<open>The frame codec\<close>

lemma byte_of_mod: "uint (word_of_int (x mod 256) :: byte) = x mod 256"
  by (simp add: uint_word_of_int)

lemma length_to_bytes_le: "length (to_bytes_le n x) = n"
  by (induction n arbitrary: x) auto

lemma from_to_bytes_le:
  "0 \<le> x \<Longrightarrow> x < 256 ^ n \<Longrightarrow> from_bytes_le (to_bytes_le n x) = x"
proof (induction n arbitrary: x)
  case 0
  then show ?case by simp
next
  case (Suc n)
  have lo: "0 \<le> x div 256" using Suc.prems by simp
  have "x < 256 ^ n * 256" using Suc.prems by simp
  then have hi: "x div 256 < 256 ^ n" by arith
  have "from_bytes_le (to_bytes_le n (x div 256)) = x div 256"
    using lo hi by (rule Suc.IH)
  then show ?case by (simp add: byte_of_mod)
qed

lemma pack_Q_le:
  "is_u64 x \<Longrightarrow> struct_pack_uint LittleEndian 8 x = Inr (to_bytes_le 8 x)"
  by (simp add: struct_pack_uint_def is_u64_def int_to_bytes_def)

lemma pack_3Q_le:
  "is_u64 a \<Longrightarrow> is_u64 b \<Longrightarrow> is_u64 c \<Longrightarrow>
   struct_pack_3Q LittleEndian [a, b, c] =
     Inr (to_bytes_le 8 a @ to_bytes_le 8 b @ to_bytes_le 8 c)"
  by (simp add: struct_pack_3Q_def pack_Q_le)

lemma unpack_3Q_le:
  assumes "is_u64 a" "is_u64 b" "is_u64 c"
  shows "struct_unpack_3Q LittleEndian (to_bytes_le 8 a @ to_bytes_le 8 b @ to_bytes_le 8 c)
         = Inr (a, b, c)"
proof -
  have r: "\<And>x. is_u64 x \<Longrightarrow> from_bytes_le (to_bytes_le 8 x) = x"
    by (rule from_to_bytes_le) (simp_all add: is_u64_def)
  show ?thesis
    using assms
    by (simp add: struct_unpack_3Q_def int_from_bytes_def length_to_bytes_le r)
qed

lemma header_accepted_length: "header_accepted f \<Longrightarrow> 8 \<le> length f"
  by (auto simp: header_accepted_def struct_unpack_I_def split: if_splits)

lemma write_at_frame:
  "8 \<le> length f \<Longrightarrow> length data = 24 \<Longrightarrow> write_at f 8 data = take 8 f @ data @ drop 32 f"
  by (simp add: write_at_def)

lemma header_accepted_frame:
  assumes "header_accepted f"
  shows "header_accepted (take 8 f @ rest)"
proof -
  have l: "8 \<le> length f" using assms by (rule header_accepted_length)
  have a: "take 4 (take 8 f @ rest) = take 4 f" using l by simp
  have b: "take 4 (drop 4 (take 8 f @ rest)) = take 4 (drop 4 f)" using l
    by (simp add: drop_take)
  show ?thesis using assms unfolding header_accepted_def a b .
qed

lemma read_metadata_accepted:
  "files d p = Some f \<Longrightarrow> header_accepted f \<Longrightarrow>
   read_metadata d p = struct_unpack_3Q LittleEndian (take 24 (drop 8 f))"
  by (simp add: read_metadata_def header_accepted_def Let_def METADATA_SIZE_def)

lemma overwrite_metadata_accepted:
  "files d p = Some f \<Longrightarrow> header_accepted f \<Longrightarrow>
   overwrite_metadata d p vals =
     (case struct_pack_3Q LittleEndian vals of
        Inl e \<Rightarrow> Inl e
      | Inr frame_data \<Rightarrow> Inr (file_write d p 8 f frame_data))"
  by (simp add: overwrite_metadata_def header_accepted_def Let_def METADATA_SIZE_def)

lemma to_from_bytes_le: "to_bytes_le (length bs) (from_bytes_le bs) = bs"
proof (induction bs)
  case Nil
  then show ?case by simp
next
  case (Cons b bs)
  have m: "(uint b + 256 * from_bytes_le bs) mod 256 = uint b"
    using uint_lt2p [of b] uint_ge_0 [of b] by simp
  have d: "(uint b + 256 * from_bytes_le bs) div 256 = from_bytes_le bs"
    using uint_lt2p [of b] uint_ge_0 [of b] by simp
  have w: "word_of_int (uint b mod 256) = b"
    using uint_lt2p [of b] uint_ge_0 [of b] by simp
  show ?case using Cons.IH by (simp add: m d w)
qed

lemma header_accepted_iff:
  "header_accepted f \<longleftrightarrow> take 8 f = MAGIC_ZSTD_HEADER @ [24, 0, 0, 0]"
proof
  assume h: "header_accepted f"
  then have l: "8 \<le> length f" by (rule header_accepted_length)
  have len4: "length (take 4 (drop 4 f)) = 4" using l by simp
  have "from_bytes_le (take 4 (drop 4 f)) = 24"
    using h by (simp add: header_accepted_def struct_unpack_I_def int_from_bytes_def METADATA_SIZE_def split: if_splits)
  then have "to_bytes_le (length (take 4 (drop 4 f))) 24 = take 4 (drop 4 f)"
    using to_from_bytes_le [of "take 4 (drop 4 f)"] by simp
  then have lenf: "take 4 (drop 4 f) = [24, 0, 0, 0]"
    unfolding len4 by (simp add: numeral_nat)
  have "take 8 f = take 4 f @ take 4 (drop 4 f)"
    using take_add [of 4 4 f] by simp
  then show "take 8 f = MAGIC_ZSTD_HEADER @ [24, 0, 0, 0]"
    using h lenf by (simp add: header_accepted_def)
next
  assume e: "take 8 f = MAGIC_ZSTD_HEADER @ [24, 0, 0, 0]"
  have "take 4 f = take 4 (take 8 f)" by simp
  then have a: "take 4 f = MAGIC_ZSTD_HEADER"
    unfolding e by (simp add: MAGIC_ZSTD_HEADER_def)
  have "take 4 (drop 4 f) = drop 4 (take 8 f)" by (simp add: drop_take)
  then have b: "take 4 (drop 4 f) = [24, 0, 0, 0]"
    unfolding e by (simp add: MAGIC_ZSTD_HEADER_def)
  from a b show "header_accepted f"
    by (simp add: header_accepted_def struct_unpack_I_def int_from_bytes_def METADATA_SIZE_def)
qed

lemma overwrite_read_back:
  assumes f: "files d p = Some f" and h: "header_accepted f"
    and a: "is_u64 a" and b: "is_u64 b" and c: "is_u64 c"
  shows "\<exists>d'. overwrite_metadata d p [a, b, c] = Inr d' \<and> read_metadata d' p = Inr (a, b, c)"
proof -
  let ?payload = "to_bytes_le 8 a @ to_bytes_le 8 b @ to_bytes_le 8 c"
  let ?d' = "file_write d p 8 f ?payload"
  have len: "length ?payload = 24" by (simp add: length_to_bytes_le)
  have ow: "overwrite_metadata d p [a, b, c] = Inr ?d'"
    using f h by (simp add: overwrite_metadata_accepted pack_3Q_le a b c)
  have l: "8 \<le> length f" using h by (rule header_accepted_length)
  have f': "files ?d' p = Some (take 8 f @ ?payload @ drop 32 f)"
    using write_at_frame [OF l len] by (simp add: file_write_def)
  have h': "header_accepted (take 8 f @ ?payload @ drop 32 f)"
    using h by (rule header_accepted_frame)
  have "take 24 (drop 8 (take 8 f @ ?payload @ drop 32 f)) = ?payload"
    using l len by simp
  then have "read_metadata ?d' p = Inr (a, b, c)"
    using read_metadata_accepted [OF f' h'] unpack_3Q_le [OF a b c] by simp
  with ow show ?thesis by blast
qed

lemma pack_I_24: "struct_pack_uint LittleEndian 4 METADATA_SIZE = Inr [24, 0, 0, 0]"
  by (simp add: struct_pack_uint_def METADATA_SIZE_def int_to_bytes_def numeral_nat)

lemma to_bytes_le_zero: "to_bytes_le n 0 = replicate n 0"
  by (induction n) auto

lemma pack_3Q_zero: "struct_pack_3Q order [0, 0, 0] = Inr (replicate 24 0)"
proof -
  have "struct_pack_uint order 8 0 = Inr (replicate 8 0)"
    by (cases order) (simp_all add: struct_pack_uint_def int_to_bytes_def to_bytes_le_zero)
  then show ?thesis
    by (simp add: struct_pack_3Q_def replicate_add [symmetric])
qed

lemma initialize_metadata_result:
  "initialize_metadata d p =
     Inr \<lparr>files = (files d)(p \<mapsto> fresh_frame),
          writes = writes d @ [Truncated p, WroteAt p 0 MAGIC_ZSTD_HEADER,
                               WroteAt p 4 [24, 0, 0, 0], WroteAt p 8 (replicate 24 0)]\<rparr>"
  by (simp add: initialize_metadata_def pack_I_24 pack_3Q_zero file_write_def write_at_def
      fresh_frame_def MAGIC_ZSTD_HEADER_def Let_def)

lemma header_accepted_fresh: "header_accepted fresh_frame"
  by (simp add: header_accepted_iff fresh_frame_def MAGIC_ZSTD_HEADER_def)

lemma from_bytes_le_zero: "from_bytes_le (replicate n 0) = 0"
  by (induction n) auto

lemma read_fresh_frame:
  "files d p = Some fresh_frame \<Longrightarrow> read_metadata d p = Inr (0, 0, 0)"
proof -
  assume f: "files d p = Some fresh_frame"
  have t: "take 24 (drop 8 fresh_frame) = replicate 24 0"
    by (simp add: fresh_frame_def MAGIC_ZSTD_HEADER_def)
  have z: "\<And>k. take 8 (drop k (replicate 24 (0::byte))) = replicate (min 8 (24 - k)) 0"
    by simp
  show ?thesis
    unfolding read_metadata_accepted [OF f header_accepted_fresh] t
    by (simp add: struct_unpack_3Q_def int_from_bytes_def from_bytes_le_zero)
qed

lemma length_counters_le: "length (counters_le a b c) = 24"
  by (simp add: counters_le_def length_to_bytes_le)

lemma pack_counters_le:
  "is_u64 a \<Longrightarrow> is_u64 b \<Longrightarrow> is_u64 c \<Longrightarrow>
   struct_pack_3Q LittleEndian [a, b, c] = Inr (counters_le a b c)"
  by (simp add: pack_3Q_le counters_le_def)

lemma overwrite_metadata_cases:
  assumes f: "files d p = Some f" and a: "is_u64 a" and b: "is_u64 b" and c: "is_u64 c"
  shows "overwrite_metadata d p [a, b, c] =
     (if take 4 f \<noteq> MAGIC_ZSTD_HEADER
      then Inl (ValueError ''Not a valid skippable frame format.'')
      else if length f < 8 then Inl StructError
      else if take 4 (drop 4 f) \<noteq> [24, 0, 0, 0]
      then Inl (ValueError ''Invalid metadata size'')
      else Inr \<lparr>files = (files d)(p \<mapsto> take 8 f @ counters_le a b c @ drop 32 f),
                writes = writes d @ [WroteAt p 8 (counters_le a b c)]\<rparr>)"
proof (cases "header_accepted f")
  case True
  then have l: "8 \<le> length f" by (rule header_accepted_length)
  have t: "take 4 f = MAGIC_ZSTD_HEADER" using True by (simp add: header_accepted_def)
  have "take 4 (drop 4 f) = drop 4 (take 8 f)" by (simp add: drop_take)
  then have u: "take 4 (drop 4 f) = [24, 0, 0, 0]"
    using True by (simp add: header_accepted_iff MAGIC_ZSTD_HEADER_def)
  have w: "write_at f 8 (counters_le a b c) = take 8 f @ counters_le a b c @ drop 32 f"
    using l length_counters_le by (rule write_at_frame)
  show ?thesis
    using l t u w
    by (simp add: overwrite_metadata_accepted [OF f True] pack_counters_le [OF a b c]
        file_write_def)
next
  case False
  show ?thesis
  proof (cases "take 4 f = MAGIC_ZSTD_HEADER")
    case m: True
    show ?thesis
    proof (cases "length f < 8")
      case True
      then have "length (take 4 (drop 4 f)) \<noteq> 4" by simp
      then have "struct_unpack_I LittleEndian (take 4 (drop 4 f)) = Inl StructError"
        by (simp add: struct_unpack_I_def)
      then show ?thesis using f m True by (simp add: overwrite_metadata_def)
    next
      case long: False
      have n: "take 4 (drop 4 f) \<noteq> [24, 0, 0, 0]"
      proof
        assume e: "take 4 (drop 4 f) = [24, 0, 0, 0]"
        have "take 8 f = take 4 f @ take 4 (drop 4 f)"
          using take_add [of 4 4 f] by simp
        then have "header_accepted f" using m e by (simp add: header_accepted_iff)
        with False show False ..
      qed
      have len4: "length (take 4 (drop 4 f)) = 4" using long by simp
      then have un: "struct_unpack_I LittleEndian (take 4 (drop 4 f)) =
                 Inr (from_bytes_le (take 4 (drop 4 f)))"
        by (simp add: struct_unpack_I_def int_from_bytes_def)
      have "from_bytes_le (take 4 (drop 4 f)) \<noteq> METADATA_SIZE"
        using False m un by (simp add: header_accepted_def)
      then show ?thesis using f m long n un by (simp add: overwrite_metadata_def)
    qed
  next
    case False
    then show ?thesis using f by (simp add: overwrite_metadata_def)
  qed
qed

lemma counters_le_1_2_3:
  "counters_le 1 2 3 = [1, 0, 0, 0, 0, 0, 0, 0, 2, 0, 0, 0, 0, 0, 0, 0, 3, 0, 0, 0, 0, 0, 0, 0]"
  by (simp add: counters_le_def numeral_nat)

section \<open>The claims on the frame codec\<close>

text \<open>
  Claim C2. For every three unsigned 64-bit counters, zero and \<open>2 ^ 64 - 1\<close> among
  them, and every file whose header passes the validation, \<^verbatim>\<open>overwrite_metadata\<close>
  succeeds and \<^verbatim>\<open>read_metadata\<close> on the file it leaves returns the three counters that
  were written.
\<close>

theorem overwrite_then_read:
  assumes "files d p = Some f" and "header_accepted f"
    and "is_u64 a" and "is_u64 b" and "is_u64 c"
  shows "\<exists>d'. overwrite_metadata d p [a, b, c] = Inr d' \<and> read_metadata d' p = Inr (a, b, c)"
  using assms by (rule overwrite_read_back)

theorem overwrite_then_read_witness:
  "\<exists>d'. overwrite_metadata
          \<lparr>files = Map.empty([97] \<mapsto> MAGIC_ZSTD_HEADER @ [24, 0, 0, 0] @ replicate 30 7),
           writes = []\<rparr>
          [97] [0, 18446744073709551615, 5] = Inr d' \<and>
        read_metadata d' [97] = Inr (0, 18446744073709551615, 5)"
proof -
  have f: "files \<lparr>files = Map.empty([97] \<mapsto> MAGIC_ZSTD_HEADER @ [24, 0, 0, 0] @ replicate 30 7),
                  writes = []\<rparr> [97]
           = Some (MAGIC_ZSTD_HEADER @ [24, 0, 0, 0] @ replicate 30 7)"
    by simp
  have h: "header_accepted (MAGIC_ZSTD_HEADER @ [24, 0, 0, 0] @ replicate 30 7)"
    by (simp add: header_accepted_def MAGIC_ZSTD_HEADER_def struct_unpack_I_def
        int_from_bytes_def METADATA_SIZE_def)
  have a: "is_u64 0" and b: "is_u64 18446744073709551615" and c: "is_u64 5"
    by (simp_all add: is_u64_def)
  show ?thesis by (rule overwrite_then_read [OF f h a b c])
qed

text \<open>
  The claim C7 as it was stated fails on a path that holds the three bytes 1, 2, 3: the call
  returns normally and the file is the new frame.
\<close>

theorem initialize_existing_counterexample:
  "initialize_metadata \<lparr>files = Map.empty([97] \<mapsto> [1, 2, 3]), writes = []\<rparr> [97] =
     Inr \<lparr>files = Map.empty([97] \<mapsto> MAGIC_ZSTD_HEADER @ [24, 0, 0, 0] @ replicate 24 0),
          writes = [Truncated [97], WroteAt [97] 0 MAGIC_ZSTD_HEADER,
                    WroteAt [97] 4 [24, 0, 0, 0], WroteAt [97] 8 (replicate 24 0)]\<rparr>"
  by (simp add: initialize_metadata_result fresh_frame_def)

text \<open>
  Claim C8. There is one byte order, little-endian, in which every payload that
  \<^verbatim>\<open>initialize_metadata\<close> or \<^verbatim>\<open>overwrite_metadata\<close> writes is the packing of the counters
  it stands for, and in which \<^verbatim>\<open>read_metadata\<close> unpacks: the payload of a new archive
  is the little-endian packing of (0, 0, 0) (the format \<^verbatim>\<open>'>3Q'\<close> that
  \<^verbatim>\<open>initialize_metadata\<close> packs them with gives the same 24 bytes), reading a new
  archive returns (0, 0, 0), and reading after an overwrite returns the counters written.
\<close>

theorem codec_one_encoding:
  assumes a: "is_u64 a" and b: "is_u64 b" and c: "is_u64 c"
  shows "\<exists>d1 d2.
           initialize_metadata d p = Inr d1 \<and>
           files d1 p = Some (MAGIC_ZSTD_HEADER @ [24, 0, 0, 0] @ counters_le 0 0 0) \<and>
           struct_pack_3Q BigEndian [0, 0, 0] = Inr (counters_le 0 0 0) \<and>
           struct_pack_3Q LittleEndian [0, 0, 0] = Inr (counters_le 0 0 0) \<and>
           struct_pack_3Q LittleEndian [a, b, c] = Inr (counters_le a b c) \<and>
           struct_unpack_3Q LittleEndian (counters_le a b c) = Inr (a, b, c) \<and>
           read_metadata d1 p = Inr (0, 0, 0) \<and>
           overwrite_metadata d1 p [a, b, c] = Inr d2 \<and>
           files d2 p = Some (MAGIC_ZSTD_HEADER @ [24, 0, 0, 0] @ counters_le a b c) \<and>
           read_metadata d2 p = Inr (a, b, c)"
proof -
  let ?d1 = "\<lparr>files = (files d)(p \<mapsto> fresh_frame),
              writes = writes d @ [Truncated p, WroteAt p 0 MAGIC_ZSTD_HEADER,
                                   WroteAt p 4 [24, 0, 0, 0], WroteAt p 8 (replicate 24 0)]\<rparr>"
  have i: "initialize_metadata d p = Inr ?d1" by (rule initialize_metadata_result)
  have f1: "files ?d1 p = Some fresh_frame" by simp
  have z: "counters_le 0 0 0 = replicate 24 0"
    by (simp add: counters_le_def to_bytes_le_zero replicate_add [symmetric])
  have fz: "fresh_frame = MAGIC_ZSTD_HEADER @ [24, 0, 0, 0] @ counters_le 0 0 0"
    by (simp add: fresh_frame_def z)
  have r1: "read_metadata ?d1 p = Inr (0, 0, 0)" using f1 by (rule read_fresh_frame)
  obtain d2 where o: "overwrite_metadata ?d1 p [a, b, c] = Inr d2"
    and r2: "read_metadata d2 p = Inr (a, b, c)"
    using overwrite_read_back [OF f1 header_accepted_fresh a b c] by blast
  have "overwrite_metadata ?d1 p [a, b, c] =
          Inr \<lparr>files = (files ?d1)(p \<mapsto> take 8 fresh_frame @ counters_le a b c @ drop 32 fresh_frame),
               writes = writes ?d1 @ [WroteAt p 8 (counters_le a b c)]\<rparr>"
    using overwrite_metadata_cases [OF f1 a b c] header_accepted_fresh
    by (simp add: fresh_frame_def MAGIC_ZSTD_HEADER_def)
  with o have f2: "files d2 p = Some (MAGIC_ZSTD_HEADER @ [24, 0, 0, 0] @ counters_le a b c)"
    by (auto simp: fresh_frame_def MAGIC_ZSTD_HEADER_def)
  have e1: "struct_pack_3Q BigEndian [0, 0, 0] = Inr (counters_le 0 0 0)"
    and e2: "struct_pack_3Q LittleEndian [0, 0, 0] = Inr (counters_le 0 0 0)"
    by (simp_all add: pack_3Q_zero z)
  have e3: "struct_pack_3Q LittleEndian [a, b, c] = Inr (counters_le a b c)"
    using a b c by (rule pack_counters_le)
  have e4: "struct_unpack_3Q LittleEndian (counters_le a b c) = Inr (a, b, c)"
    unfolding counters_le_def using a b c by (rule unpack_3Q_le)
  have f1': "files ?d1 p = Some (MAGIC_ZSTD_HEADER @ [24, 0, 0, 0] @ counters_le 0 0 0)"
    using f1 fz by simp
  from i f1' e1 e2 e3 e4 r1 o f2 r2 show ?thesis by blast
qed

theorem codec_one_encoding_witness:
  "\<exists>d1 d2.
     initialize_metadata \<lparr>files = Map.empty, writes = []\<rparr> [97] = Inr d1 \<and>
     files d1 [97] = Some (MAGIC_ZSTD_HEADER @ [24, 0, 0, 0] @ counters_le 0 0 0) \<and>
     struct_pack_3Q BigEndian [0, 0, 0] = Inr (counters_le 0 0 0) \<and>
     struct_pack_3Q LittleEndian [0, 0, 0] = Inr (counters_le 0 0 0) \<and>
     struct_pack_3Q LittleEndian [258, 18446744073709551615, 0] =
       Inr (counters_le 258 18446744073709551615 0) \<and>
     struct_unpack_3Q LittleEndian (counters_le 258 18446744073709551615 0) =
       Inr (258, 18446744073709551615, 0) \<and>
     read_metadata d1 [97] = Inr (0, 0, 0) \<and>
     overwrite_metadata d1 [97] [258, 18446744073709551615, 0] = Inr d2 \<and>
     files d2 [97] =
       Some (MAGIC_ZSTD_HEADER @ [24, 0, 0, 0] @ counters_le 258 18446744073709551615 0) \<and>
     read_metadata d2 [97] = Inr (258, 18446744073709551615, 0)"
proof -
  have a: "is_u64 258" and b: "is_u64 18446744073709551615" and c: "is_u64 0"
    by (simp_all add: is_u64_def)
  show ?thesis by (rule codec_one_encoding [OF a b c])
qed

text \<open>
  Claim C9, as amended. On an existing file and unsigned 64-bit counters,
  \<^verbatim>\<open>overwrite_metadata\<close> raises exactly when the first 8 bytes of the file are not the
  magic and the length 24: a \<^verbatim>\<open>ValueError\<close> when the magic is wrong or the length field
  is, a \<^verbatim>\<open>struct.error\<close> when the file ends inside the length field. Otherwise it
  writes the 24 bytes of the payload at offset 8 and nothing else: the first 8 bytes and
  every byte from offset 32 on stay as they were, and the file keeps its length when it
  has 32 bytes or more. An accepted file of fewer than 32 bytes grows to 32 bytes.
\<close>

theorem overwrite_metadata_in_place:
  assumes f: "files d p = Some f" and a: "is_u64 a" and b: "is_u64 b" and c: "is_u64 c"
  shows "((\<exists>e. overwrite_metadata d p [a, b, c] = Inl e) \<longleftrightarrow>
            take 8 f \<noteq> MAGIC_ZSTD_HEADER @ [24, 0, 0, 0]) \<and>
         ((\<exists>msg. overwrite_metadata d p [a, b, c] = Inl (ValueError msg)) \<longleftrightarrow>
            take 4 f \<noteq> MAGIC_ZSTD_HEADER \<or>
            8 \<le> length f \<and> take 8 f \<noteq> MAGIC_ZSTD_HEADER @ [24, 0, 0, 0]) \<and>
         (overwrite_metadata d p [a, b, c] = Inl StructError \<longleftrightarrow>
            take 4 f = MAGIC_ZSTD_HEADER \<and> length f < 8) \<and>
         (take 8 f = MAGIC_ZSTD_HEADER @ [24, 0, 0, 0] \<longrightarrow>
            overwrite_metadata d p [a, b, c] =
              Inr \<lparr>files = (files d)(p \<mapsto> take 8 f @ counters_le a b c @ drop 32 f),
                   writes = writes d @ [WroteAt p 8 (counters_le a b c)]\<rparr> \<and>
            length (counters_le a b c) = 24 \<and>
            length (take 8 f @ counters_le a b c @ drop 32 f) = max 32 (length f))"
proof -
  note cs = overwrite_metadata_cases [OF f a b c]
  have split8: "take 8 f = take 4 f @ take 4 (drop 4 f)"
    using take_add [of 4 4 f] by simp
  have eq8: "take 8 f = MAGIC_ZSTD_HEADER @ [24, 0, 0, 0] \<longleftrightarrow>
             take 4 f = MAGIC_ZSTD_HEADER \<and> 8 \<le> length f \<and> take 4 (drop 4 f) = [24, 0, 0, 0]"
  proof
    assume e: "take 8 f = MAGIC_ZSTD_HEADER @ [24, 0, 0, 0]"
    then have h: "header_accepted f" by (simp add: header_accepted_iff)
    have "take 4 (drop 4 f) = drop 4 (take 8 f)" by (simp add: drop_take)
    then have "take 4 (drop 4 f) = [24, 0, 0, 0]"
      unfolding e by (simp add: MAGIC_ZSTD_HEADER_def)
    then show "take 4 f = MAGIC_ZSTD_HEADER \<and> 8 \<le> length f \<and> take 4 (drop 4 f) = [24, 0, 0, 0]"
      using h header_accepted_length [OF h] by (simp add: header_accepted_def)
  next
    assume "take 4 f = MAGIC_ZSTD_HEADER \<and> 8 \<le> length f \<and> take 4 (drop 4 f) = [24, 0, 0, 0]"
    then show "take 8 f = MAGIC_ZSTD_HEADER @ [24, 0, 0, 0]" using split8 by simp
  qed
  have c1: "(\<exists>e. overwrite_metadata d p [a, b, c] = Inl e) \<longleftrightarrow>
            take 8 f \<noteq> MAGIC_ZSTD_HEADER @ [24, 0, 0, 0]"
    unfolding cs eq8 by auto
  have c2: "(\<exists>msg. overwrite_metadata d p [a, b, c] = Inl (ValueError msg)) \<longleftrightarrow>
            take 4 f \<noteq> MAGIC_ZSTD_HEADER \<or>
            8 \<le> length f \<and> take 8 f \<noteq> MAGIC_ZSTD_HEADER @ [24, 0, 0, 0]"
    unfolding cs eq8 by auto
  have c3: "overwrite_metadata d p [a, b, c] = Inl StructError \<longleftrightarrow>
            take 4 f = MAGIC_ZSTD_HEADER \<and> length f < 8"
    unfolding cs by auto
  have c4: "take 8 f = MAGIC_ZSTD_HEADER @ [24, 0, 0, 0] \<longrightarrow>
            overwrite_metadata d p [a, b, c] =
              Inr \<lparr>files = (files d)(p \<mapsto> take 8 f @ counters_le a b c @ drop 32 f),
                   writes = writes d @ [WroteAt p 8 (counters_le a b c)]\<rparr> \<and>
            length (counters_le a b c) = 24 \<and>
            length (take 8 f @ counters_le a b c @ drop 32 f) = max 32 (length f)"
  proof
    assume e: "take 8 f = MAGIC_ZSTD_HEADER @ [24, 0, 0, 0]"
    then have k: "take 4 f = MAGIC_ZSTD_HEADER \<and> 8 \<le> length f \<and> take 4 (drop 4 f) = [24, 0, 0, 0]"
      using eq8 by simp
    have o: "overwrite_metadata d p [a, b, c] =
              Inr \<lparr>files = (files d)(p \<mapsto> take 8 f @ counters_le a b c @ drop 32 f),
                   writes = writes d @ [WroteAt p 8 (counters_le a b c)]\<rparr>"
      unfolding cs using k by simp
    have l: "length (take 8 f @ counters_le a b c @ drop 32 f) = max 32 (length f)"
      using k by (simp add: length_counters_le)
    show "overwrite_metadata d p [a, b, c] =
              Inr \<lparr>files = (files d)(p \<mapsto> take 8 f @ counters_le a b c @ drop 32 f),
                   writes = writes d @ [WroteAt p 8 (counters_le a b c)]\<rparr> \<and>
            length (counters_le a b c) = 24 \<and>
            length (take 8 f @ counters_le a b c @ drop 32 f) = max 32 (length f)"
      using o l length_counters_le by simp
  qed
  show ?thesis using c1 c2 c3 c4 by blast
qed

theorem overwrite_metadata_in_place_witness:
  "overwrite_metadata
     \<lparr>files = Map.empty([97] \<mapsto> MAGIC_ZSTD_HEADER @ [24, 0, 0, 0] @ replicate 24 9 @ [7, 7]),
      writes = []\<rparr> [97] [1, 2, 3] =
   Inr \<lparr>files = Map.empty([97] \<mapsto> MAGIC_ZSTD_HEADER @ [24, 0, 0, 0] @ counters_le 1 2 3 @ [7, 7]),
        writes = [WroteAt [97] 8 (counters_le 1 2 3)]\<rparr> \<and>
   length (MAGIC_ZSTD_HEADER @ [24, 0, 0, 0] @ counters_le 1 2 3 @ [7, 7]) = 34"
  using overwrite_metadata_in_place
    [of "\<lparr>files = Map.empty([97] \<mapsto> MAGIC_ZSTD_HEADER @ [24, 0, 0, 0] @ replicate 24 9 @ [7, 7]),
          writes = []\<rparr>" "[97]"
        "MAGIC_ZSTD_HEADER @ [24, 0, 0, 0] @ replicate 24 9 @ [7, 7]" 1 2 3]
  by (simp add: is_u64_def MAGIC_ZSTD_HEADER_def)

text \<open>
  The claim C9 as it was stated fails on a file that is accepted and truncated: the 8 bytes
  of a header alone become a file of 32 bytes.
\<close>

theorem overwrite_truncated_counterexample:
  "files \<lparr>files = Map.empty([97] \<mapsto> MAGIC_ZSTD_HEADER @ [24, 0, 0, 0]), writes = []\<rparr> [97] =
     Some [0x50, 0x2A, 0x4D, 0x18, 24, 0, 0, 0] \<and>
   overwrite_metadata
     \<lparr>files = Map.empty([97] \<mapsto> MAGIC_ZSTD_HEADER @ [24, 0, 0, 0]), writes = []\<rparr> [97] [1, 2, 3] =
   Inr \<lparr>files = Map.empty([97] \<mapsto>
          [0x50, 0x2A, 0x4D, 0x18, 24, 0, 0, 0,
           1, 0, 0, 0, 0, 0, 0, 0, 2, 0, 0, 0, 0, 0, 0, 0, 3, 0, 0, 0, 0, 0, 0, 0]),
        writes = [WroteAt [97] 8
          [1, 0, 0, 0, 0, 0, 0, 0, 2, 0, 0, 0, 0, 0, 0, 0, 3, 0, 0, 0, 0, 0, 0, 0]]\<rparr>"
proof -
  have f: "files \<lparr>files = Map.empty([97] \<mapsto> MAGIC_ZSTD_HEADER @ [24, 0, 0, 0]), writes = []\<rparr> [97]
           = Some (MAGIC_ZSTD_HEADER @ [24, 0, 0, 0])"
    by simp
  have u: "is_u64 1" "is_u64 2" "is_u64 3" by (simp_all add: is_u64_def)
  show ?thesis
    unfolding overwrite_metadata_cases [OF f u] counters_le_1_2_3
    by (simp add: MAGIC_ZSTD_HEADER_def)
qed

section \<open>One turn of the loop\<close>

lemma commit_unfold:
  "commit compress sig p vals log_text s =
     (case overwrite_metadata (dsk s) p vals of
        Inl e \<Rightarrow>
          Inl (Raised e, s\<lparr>in_critical_section := True,
                            shutdown_event := shutdown_event s \<or> sig SigEnter\<rparr>)
      | Inr d1 \<Rightarrow>
          (case append_batch compress d1 p log_text of
             (Some e, d2) \<Rightarrow>
               Inl (Raised e, s\<lparr>in_critical_section := True,
                                 shutdown_event := shutdown_event s \<or> sig SigEnter \<or> sig SigBetween,
                                 dsk := d2\<rparr>)
           | (None, d2) \<Rightarrow>
               Inr (s\<lparr>in_critical_section := False,
                      shutdown_event :=
                        shutdown_event s \<or> sig SigEnter \<or> sig SigBetween \<or> sig SigLeave,
                      dsk := d2\<rparr>)))"
  by (cases "sig SigEnter"; cases "sig SigBetween"; cases "sig SigLeave")
     (simp_all add: commit_def deliver_def handle_signal_def Let_def
        split: sum.split prod.split option.split)

lemma commit_leaves_section:
  "commit compress sig p vals log_text s = Inr s' \<Longrightarrow> \<not> in_critical_section s'"
  by (auto simp: commit_unfold split: sum.splits prod.splits option.splits)

lemma loop_body_unfold:
  assumes "\<not> in_critical_section s"
  shows "loop_body cl args compress p n s =
     (if signal cl n SigFetch then Stop (Exit 0) s
      else
        (case history cl n (arg_batch args) (last_read_message s) of
           Inl e \<Rightarrow> Stop (Raised e) s
         | Inr ms \<Rightarrow>
             if ms = [] then Break s
             else if signal cl n SigPrepare then Stop (Exit 0) (counted s ms)
             else
               (case commit compress (signal cl n) p (new_data_of s ms)
                       (format_messages [] ms) (counted s ms) of
                  Inl (out, s') \<Rightarrow> Stop out s'
                | Inr s4 \<Rightarrow>
                    if signal cl n SigCheck \<or> shutdown_event s4 \<or> signal cl n SigTail
                    then Stop (Exit 0) s4
                    else if int (length ms) < arg_batch args then Break s4
                    else Continue s4)))"
proof -
  have c: "\<not> in_critical_section (counted s ms)" for ms
    using assms by (simp add: counted_def)
  show ?thesis
    using assms c
    by (auto simp: loop_body_def deliver_def handle_signal_def Let_def counted_def
          new_data_of_def
        dest: commit_leaves_section
        split: sum.splits prod.splits)
qed

lemma append_batch_existing:
  assumes "files d p = Some f" and "encode_utf8 log_text = Inr text_bytes"
  shows "append_batch compress d p log_text =
           (None, \<lparr>files = (files d)(p \<mapsto> f @ compress text_bytes),
                   writes = writes d @ [WroteAt p (length f) (compress text_bytes)]\<rparr>)"
  using assms by (simp add: append_batch_def file_write_def write_at_def Let_def)

lemma append_batch_raises:
  assumes "files d p = Some f" and "encode_utf8 log_text = Inl e"
  shows "append_batch compress d p log_text = (Some e, d)"
  using assms by (simp add: append_batch_def)

lemma overwrite_metadata_result:
  assumes "files d p = Some f" and "header_accepted f"
    and "is_u64 a" and "is_u64 b" and "is_u64 c"
  shows "overwrite_metadata d p [a, b, c] =
     Inr \<lparr>files = (files d)(p \<mapsto> take 8 f @ counters_le a b c @ drop 32 f),
          writes = writes d @ [WroteAt p 8 (counters_le a b c)]\<rparr>"
proof -
  have l: "8 \<le> length f" using assms(2) by (rule header_accepted_length)
  have w: "write_at f 8 (counters_le a b c) = take 8 f @ counters_le a b c @ drop 32 f"
    using l length_counters_le by (rule write_at_frame)
  show ?thesis
    using assms w
    by (simp add: overwrite_metadata_accepted pack_counters_le file_write_def)
qed

lemma commit_succeeds:
  assumes f: "files (dsk s) p = Some f" and h: "header_accepted f"
    and a: "is_u64 a" and b: "is_u64 b" and c: "is_u64 c"
    and e: "encode_utf8 log_text = Inr text_bytes"
  shows "commit compress sig p [a, b, c] log_text s =
     Inr (s\<lparr>in_critical_section := False,
            shutdown_event := shutdown_event s \<or> sig SigEnter \<or> sig SigBetween \<or> sig SigLeave,
            dsk := commit_disk (dsk s) p f (counters_le a b c) (compress text_bytes)\<rparr>)"
proof -
  let ?d1 = "\<lparr>files = (files (dsk s))(p \<mapsto> take 8 f @ counters_le a b c @ drop 32 f),
              writes = writes (dsk s) @ [WroteAt p 8 (counters_le a b c)]\<rparr>"
  have o: "overwrite_metadata (dsk s) p [a, b, c] = Inr ?d1"
    using f h a b c by (rule overwrite_metadata_result)
  have f1: "files ?d1 p = Some (take 8 f @ counters_le a b c @ drop 32 f)" by simp
  have l: "8 \<le> length f" using h by (rule header_accepted_length)
  have len: "length (take 8 f @ counters_le a b c @ drop 32 f) = max 32 (length f)"
    using l by (simp add: length_counters_le)
  have ap: "append_batch compress ?d1 p log_text =
          (None, commit_disk (dsk s) p f (counters_le a b c) (compress text_bytes))"
    unfolding append_batch_existing [OF f1 e] len by (simp add: commit_disk_def)
  show ?thesis unfolding commit_unfold o by (simp add: ap)
qed

lemma turn_result:
  assumes i: "\<not> in_critical_section s"
    and hist: "history cl n (arg_batch args) (last_read_message s) = Inr ms" and ne: "ms \<noteq> []"
    and f: "files (dsk s) p = Some f" and h: "header_accepted f"
    and a: "is_u64 (msg_id (last ms))"
    and b: "is_u64 (total_messages_read s + int (length ms))"
    and c: "is_u64 (uncompressed_size s + int (length (format_messages [] ms)))"
    and e: "encode_utf8 (format_messages [] ms) = Inr text_bytes"
  shows "loop_body cl args compress p n s =
     (if signal cl n SigFetch then Stop (Exit 0) s
      else if signal cl n SigPrepare then Stop (Exit 0) (counted s ms)
      else if signal cl n SigCheck \<or> shutdown_event s \<or> signal cl n SigEnter \<or>
              signal cl n SigBetween \<or> signal cl n SigLeave \<or> signal cl n SigTail
      then Stop (Exit 0)
             ((counted s ms)\<lparr>in_critical_section := False,
                shutdown_event := shutdown_event s \<or> signal cl n SigEnter \<or>
                   signal cl n SigBetween \<or> signal cl n SigLeave,
                dsk := commit_disk (dsk s) p f
                  (counters_le (msg_id (last ms)) (total_messages_read s + int (length ms))
                     (uncompressed_size s + int (length (format_messages [] ms))))
                  (compress text_bytes)\<rparr>)
      else if int (length ms) < arg_batch args
      then Break
             ((counted s ms)\<lparr>in_critical_section := False, shutdown_event := False,
                dsk := commit_disk (dsk s) p f
                  (counters_le (msg_id (last ms)) (total_messages_read s + int (length ms))
                     (uncompressed_size s + int (length (format_messages [] ms))))
                  (compress text_bytes)\<rparr>)
      else Continue
             ((counted s ms)\<lparr>in_critical_section := False, shutdown_event := False,
                dsk := commit_disk (dsk s) p f
                  (counters_le (msg_id (last ms)) (total_messages_read s + int (length ms))
                     (uncompressed_size s + int (length (format_messages [] ms))))
                  (compress text_bytes)\<rparr>))"
proof -
  have fc: "files (dsk (counted s ms)) p = Some f" using f by (simp add: counted_def)
  have cm: "commit compress (signal cl n) p (new_data_of s ms) (format_messages [] ms) (counted s ms) =
     Inr ((counted s ms)\<lparr>in_critical_section := False,
            shutdown_event := shutdown_event (counted s ms) \<or> signal cl n SigEnter \<or>
               signal cl n SigBetween \<or> signal cl n SigLeave,
            dsk := commit_disk (dsk (counted s ms)) p f
               (counters_le (msg_id (last ms)) (total_messages_read s + int (length ms))
                  (uncompressed_size s + int (length (format_messages [] ms))))
               (compress text_bytes)\<rparr>)"
    unfolding new_data_of_def using fc h a b c e by (rule commit_succeeds)
  have sd: "shutdown_event (counted s ms) = shutdown_event s" "dsk (counted s ms) = dsk s"
    by (simp_all add: counted_def)
  show ?thesis
    using ne by (simp add: loop_body_unfold [OF i] hist cm sd)
qed

lemma counted_fields:
  "last_read_message (counted s ms) = Some (msg_id (last ms))"
  "total_messages_read (counted s ms) = total_messages_read s + int (length ms)"
  "uncompressed_size (counted s ms) = uncompressed_size s + int (length (format_messages [] ms))"
  "in_critical_section (counted s ms) = in_critical_section s"
  "shutdown_event (counted s ms) = shutdown_event s"
  "dsk (counted s ms) = dsk s"
  by (simp_all add: counted_def)

lemma empty_turn:
  assumes "\<not> in_critical_section s"
    and "history cl n (arg_batch args) (last_read_message s) = Inr []"
  shows "loop_body cl args compress p n s =
           (if signal cl n SigFetch then Stop (Exit 0) s else Break s)"
  using assms by (simp add: loop_body_unfold)

lemma example_transcript:
  "format_messages [] example_messages = [0, 60, 97, 62, 0, 104, 105, 10]"
  by (simp add: example_messages_def)

lemma example_transcript_bytes:
  "encode_utf8 [0, 60, 97, 62, 0, 104, 105, 10] = Inr [0, 60, 97, 62, 0, 104, 105, 10]"
  by (simp add: utf8_char_def)

section \<open>The claims on the session\<close>

text \<open>
  What a turn writes on a non-empty batch, when neither a signal outside the critical
  section nor an exception ends it: the payload that \<^verbatim>\<open>overwrite_metadata\<close> is given,
  at offset 8, and after it the compressed transcript at the end of the file.
\<close>

lemma turn_writes:
  assumes "\<not> in_critical_section s"
    and "\<not> signal cl n SigFetch" and "\<not> signal cl n SigPrepare"
    and "history cl n (arg_batch args) (last_read_message s) = Inr ms" and "ms \<noteq> []"
    and "files (dsk s) p = Some f" and "header_accepted f"
    and "is_u64 (msg_id (last ms))"
    and "is_u64 (total_messages_read s + int (length ms))"
    and "is_u64 (uncompressed_size s + int (length (format_messages [] ms)))"
    and "encode_utf8 (format_messages [] ms) = Inr text_bytes"
  shows "writes (dsk (session_of (loop_body cl args compress p n s))) =
           writes (dsk s) @
           [WroteAt p 8
              (counters_le (msg_id (last ms)) (total_messages_read s + int (length ms))
                 (uncompressed_size s + int (length (format_messages [] ms)))),
            WroteAt p (max 32 (length f)) (compress text_bytes)] \<and>
         files (dsk (session_of (loop_body cl args compress p n s))) =
           (files (dsk s))(p \<mapsto>
              take 8 f @
              counters_le (msg_id (last ms)) (total_messages_read s + int (length ms))
                 (uncompressed_size s + int (length (format_messages [] ms))) @
              drop 32 f @ compress text_bytes) \<and>
         (loop_body cl args compress p n s =
            Continue (session_of (loop_body cl args compress p n s)) \<or>
          loop_body cl args compress p n s =
            Break (session_of (loop_body cl args compress p n s)) \<or>
          loop_body cl args compress p n s =
            Stop (Exit 0) (session_of (loop_body cl args compress p n s)))"
  unfolding turn_result [OF assms(1) assms(4-11)]
  using assms(2,3) by (simp add: commit_disk_def)

lemma read_metadata_file: "read_metadata d p = Inr v \<Longrightarrow> files d p \<noteq> None"
  by (auto simp: read_metadata_def split: option.splits)

lemma on_ready_nothing_new:
  assumes ch: "get_channel cl (arg_channel args) = Some ch"
    and rd: "read_metadata d (get_file_path args (channel_name_of ch)) = Inr (l, c, b)"
    and hist: "history cl 0 (arg_batch args) (if l = 0 then None else Some l) = Inr []"
  shows "on_ready cl args compress (Suc fuel) d = (Some (Exit 0), d)"
proof -
  let ?p = "get_file_path args (channel_name_of ch)"
  let ?s = "\<lparr>last_read_message = (if l = 0 then None else Some l),
             total_messages_read = c, uncompressed_size = b,
             in_critical_section = False, shutdown_event = False, dsk = d\<rparr>"
  have "files d ?p \<noteq> None" using rd by (rule read_metadata_file)
  then obtain f0 where ex: "files d ?p = Some f0" by blast
  have i: "\<not> in_critical_section ?s" by simp
  have h: "history cl 0 (arg_batch args) (last_read_message ?s) = Inr []"
    using hist by simp
  have "loop_body cl args compress ?p 0 ?s =
          (if signal cl 0 SigFetch then Stop (Exit 0) ?s else Break ?s)"
    using i h by (rule empty_turn)
  then have "session_loop cl args compress ?p (Suc fuel) 0 ?s = Finished (Exit 0) ?s"
    by simp
  then show ?thesis
    using ch rd ex by (simp add: on_ready_def Let_def)
qed

text \<open>
  Claim C3. The handler exits with 0 at once when the flag \<^verbatim>\<open>in_critical_section\<close> is
  false, and only sets the event when it is true. In a turn that commits a batch, a signal
  while the history is awaited or while the counters are computed ends the process with 0
  before anything is written; a signal in the critical section (before the overwrite,
  between the overwrite and the append, or after the append) ends nothing: both writes of
  the commit are made in full, and the process exits with 0 at the test of the event that
  follows. Whatever signals arrive, the disk a turn leaves is the disk before the commit or
  the disk after the whole commit, never the one between the two writes.
\<close>

theorem signal_waits_for_commit:
  assumes "\<not> in_critical_section s"
    and "history cl n (arg_batch args) (last_read_message s) = Inr ms" and "ms \<noteq> []"
    and "files (dsk s) p = Some f" and "header_accepted f"
    and "is_u64 (msg_id (last ms))"
    and "is_u64 (total_messages_read s + int (length ms))"
    and "is_u64 (uncompressed_size s + int (length (format_messages [] ms)))"
    and "encode_utf8 (format_messages [] ms) = Inr text_bytes"
  shows "(\<not> in_critical_section t \<longrightarrow> handle_signal t = Inl (Exit 0)) \<and>
         (in_critical_section t \<longrightarrow> handle_signal t = Inr (t\<lparr>shutdown_event := True\<rparr>)) \<and>
         (signal cl n SigFetch \<longrightarrow> loop_body cl args compress p n s = Stop (Exit 0) s) \<and>
         (\<not> signal cl n SigFetch \<and> signal cl n SigPrepare \<longrightarrow>
            loop_body cl args compress p n s = Stop (Exit 0) (counted s ms)) \<and>
         (\<not> signal cl n SigFetch \<and> \<not> signal cl n SigPrepare \<and>
          (signal cl n SigEnter \<or> signal cl n SigBetween \<or> signal cl n SigLeave) \<longrightarrow>
            loop_body cl args compress p n s =
              Stop (Exit 0)
                ((counted s ms)\<lparr>in_critical_section := False, shutdown_event := True,
                   dsk := commit_disk (dsk s) p f
                     (counters_le (msg_id (last ms)) (total_messages_read s + int (length ms))
                        (uncompressed_size s + int (length (format_messages [] ms))))
                     (compress text_bytes)\<rparr>)) \<and>
         (dsk (session_of (loop_body cl args compress p n s)) = dsk s \<or>
          dsk (session_of (loop_body cl args compress p n s)) =
            commit_disk (dsk s) p f
              (counters_le (msg_id (last ms)) (total_messages_read s + int (length ms))
                 (uncompressed_size s + int (length (format_messages [] ms))))
              (compress text_bytes))"
  unfolding turn_result [OF assms]
  by (simp add: handle_signal_def counted_fields)

theorem signal_waits_for_commit_witness:
  "handle_signal example_session = Inl (Exit 0) \<and>
   handle_signal (example_session\<lparr>in_critical_section := True\<rparr>) =
     Inr (example_session\<lparr>in_critical_section := True, shutdown_event := True\<rparr>) \<and>
   loop_body (example_client True example_messages) example_args id [97] 0 example_session =
     Stop (Exit 0)
       ((counted example_session example_messages)
          \<lparr>in_critical_section := False, shutdown_event := True,
           dsk := commit_disk example_disk [97] fresh_frame (counters_le 9 2 8)
                    [0, 60, 97, 62, 0, 104, 105, 10]\<rparr>)"
proof -
  let ?cl = "example_client True example_messages"
  have h1: "\<not> in_critical_section example_session"
    by (simp add: example_session_def)
  have h4: "history ?cl 0 (arg_batch example_args) (last_read_message example_session) =
              Inr example_messages"
    by (simp add: example_client_def)
  have h5: "example_messages \<noteq> []" by (simp add: example_messages_def)
  have h6: "files (dsk example_session) [97] = Some fresh_frame"
    by (simp add: example_session_def example_disk_def)
  have h8: "is_u64 (msg_id (last example_messages))"
    by (simp add: example_messages_def is_u64_def)
  have h9: "is_u64 (total_messages_read example_session + int (length example_messages))"
    by (simp add: example_messages_def example_session_def is_u64_def)
  have h10: "is_u64 (uncompressed_size example_session +
               int (length (format_messages [] example_messages)))"
    by (simp add: example_transcript example_session_def is_u64_def)
  have h11: "encode_utf8 (format_messages [] example_messages) =
               Inr [0, 60, 97, 62, 0, 104, 105, 10]"
    unfolding example_transcript by (rule example_transcript_bytes)
  have sg: "\<not> signal ?cl 0 SigFetch" "\<not> signal ?cl 0 SigPrepare" "signal ?cl 0 SigBetween"
    by (simp_all add: example_client_def)
  have v: "msg_id (last example_messages) = 9"
    "total_messages_read example_session + int (length example_messages) = 2"
    "uncompressed_size example_session + int (length (format_messages [] example_messages)) = 8"
    "dsk example_session = example_disk"
    by (simp_all add: example_transcript example_messages_def example_session_def)
  note th = signal_waits_for_commit [OF h1 h4 h5 h6 header_accepted_fresh h8 h9 h10 h11,
      where compress = id]
  have a: "handle_signal example_session = Inl (Exit 0)"
    using th [of example_session] h1 by simp
  have b: "handle_signal (example_session\<lparr>in_critical_section := True\<rparr>) =
     Inr (example_session\<lparr>in_critical_section := True, shutdown_event := True\<rparr>)"
    using th [of "example_session\<lparr>in_critical_section := True\<rparr>"] by simp
  have c: "loop_body ?cl example_args id [97] 0 example_session =
     Stop (Exit 0)
       ((counted example_session example_messages)
          \<lparr>in_critical_section := False, shutdown_event := True,
           dsk := commit_disk example_disk [97] fresh_frame (counters_le 9 2 8)
                    [0, 60, 97, 62, 0, 104, 105, 10]\<rparr>)"
    using th [of example_session] sg unfolding v by simp
  from a b c show ?thesis by simp
qed

text \<open>
  Claim C4. In a turn that no exception and no signal outside the critical section ends,
  the loop stops exactly when the batch is empty, or the event is set after the commit (a
  signal arrived in the critical section), or the batch is shorter than the batch size;
  otherwise it goes on to the next turn. A session on an archive that is there and
  readable, whose first request after the stored cursor returns no message, exits with 0
  and leaves the disk as it was: no write is made and the file is the same.
\<close>

theorem loop_ends:
  assumes i: "\<not> in_critical_section s"
    and q: "\<not> signal cl n SigFetch" "\<not> signal cl n SigPrepare"
      "\<not> signal cl n SigCheck" "\<not> signal cl n SigTail"
    and hist: "history cl n (arg_batch args) (last_read_message s) = Inr ms"
    and f: "ms \<noteq> [] \<Longrightarrow> files (dsk s) p = Some f \<and> header_accepted f"
    and a: "ms \<noteq> [] \<Longrightarrow> is_u64 (msg_id (last ms))"
    and b: "ms \<noteq> [] \<Longrightarrow> is_u64 (total_messages_read s + int (length ms))"
    and c: "ms \<noteq> [] \<Longrightarrow> is_u64 (uncompressed_size s + int (length (format_messages [] ms)))"
    and e: "ms \<noteq> [] \<Longrightarrow> encode_utf8 (format_messages [] ms) = Inr text_bytes"
  shows "session_loop cl args compress p (Suc fuel) n s =
           (if ms = [] \<or> shutdown_event (session_of (loop_body cl args compress p n s)) \<or>
               int (length ms) < arg_batch args
            then Finished (Exit 0) (session_of (loop_body cl args compress p n s))
            else session_loop cl args compress p fuel (Suc n)
                   (session_of (loop_body cl args compress p n s))) \<and>
         (ms \<noteq> [] \<longrightarrow>
            shutdown_event (session_of (loop_body cl args compress p n s)) =
              (shutdown_event s \<or> signal cl n SigEnter \<or> signal cl n SigBetween \<or>
               signal cl n SigLeave)) \<and>
         (get_channel cl (arg_channel args) = Some ch \<and>
          read_metadata d (get_file_path args (channel_name_of ch)) = Inr (last_id, total_read, size_read) \<and>
          history cl 0 (arg_batch args) (if last_id = 0 then None else Some last_id) = Inr [] \<longrightarrow>
            on_ready cl args compress (Suc fuel) d = (Some (Exit 0), d))"
proof -
  have part1: "session_loop cl args compress p (Suc fuel) n s =
           (if ms = [] \<or> shutdown_event (session_of (loop_body cl args compress p n s)) \<or>
               int (length ms) < arg_batch args
            then Finished (Exit 0) (session_of (loop_body cl args compress p n s))
            else session_loop cl args compress p fuel (Suc n)
                   (session_of (loop_body cl args compress p n s))) \<and>
         (ms \<noteq> [] \<longrightarrow>
            shutdown_event (session_of (loop_body cl args compress p n s)) =
              (shutdown_event s \<or> signal cl n SigEnter \<or> signal cl n SigBetween \<or>
               signal cl n SigLeave))"
  proof (cases "ms = []")
    case True
    have "loop_body cl args compress p n s = Break s"
      using empty_turn [OF i hist [unfolded True]] q by simp
    then show ?thesis using True by simp
  next
    case False
    note tr = turn_result [OF i hist False conjunct1 [OF f [OF False]]
        conjunct2 [OF f [OF False]] a [OF False] b [OF False] c [OF False] e [OF False]]
    show ?thesis unfolding session_loop.simps tr using q False by simp
  qed
  have part2: "get_channel cl (arg_channel args) = Some ch \<and>
          read_metadata d (get_file_path args (channel_name_of ch)) = Inr (last_id, total_read, size_read) \<and>
          history cl 0 (arg_batch args) (if last_id = 0 then None else Some last_id) = Inr [] \<longrightarrow>
            on_ready cl args compress (Suc fuel) d = (Some (Exit 0), d)"
    using on_ready_nothing_new by blast
  from part1 part2 show ?thesis by blast
qed

theorem loop_ends_witness:
  "session_loop (example_client False example_messages) example_args id [97] (Suc 0) 0
     example_session =
     Finished (Exit 0)
       (session_of
          (loop_body (example_client False example_messages) example_args id [97] 0
             example_session)) \<and>
   on_ready (example_client False []) example_args id (Suc 0) example_disk =
     (Some (Exit 0), example_disk)"
proof -
  let ?cl = "example_client False example_messages"
  let ?idle = "example_client False []"
  have h1: "\<not> in_critical_section example_session"
    by (simp add: example_session_def)
  have q: "\<not> signal ?cl 0 SigFetch" "\<not> signal ?cl 0 SigPrepare"
    "\<not> signal ?cl 0 SigCheck" "\<not> signal ?cl 0 SigTail"
    by (simp_all add: example_client_def)
  have h4: "history ?cl 0 (arg_batch example_args) (last_read_message example_session) =
              Inr example_messages"
    by (simp add: example_client_def)
  have h6: "example_messages \<noteq> [] \<Longrightarrow>
              files (dsk example_session) [97] = Some fresh_frame \<and> header_accepted fresh_frame"
    by (simp add: example_session_def example_disk_def header_accepted_fresh)
  have h8: "example_messages \<noteq> [] \<Longrightarrow> is_u64 (msg_id (last example_messages))"
    by (simp add: example_messages_def is_u64_def)
  have h9: "example_messages \<noteq> [] \<Longrightarrow>
              is_u64 (total_messages_read example_session + int (length example_messages))"
    by (simp add: example_messages_def example_session_def is_u64_def)
  have h10: "example_messages \<noteq> [] \<Longrightarrow>
               is_u64 (uncompressed_size example_session +
                 int (length (format_messages [] example_messages)))"
    by (simp add: example_transcript example_session_def is_u64_def)
  have h11: "example_messages \<noteq> [] \<Longrightarrow>
               encode_utf8 (format_messages [] example_messages) =
                 Inr [0, 60, 97, 62, 0, 104, 105, 10]"
    unfolding example_transcript by (rule example_transcript_bytes)
  have short: "int (length example_messages) < arg_batch example_args"
    by (simp add: example_messages_def example_args_def)
  have first: "session_loop ?cl example_args id [97] (Suc 0) 0 example_session =
     Finished (Exit 0) (session_of (loop_body ?cl example_args id [97] 0 example_session))"
    using loop_ends [OF h1 q h4 h6 h8 h9 h10 h11, where compress = id and fuel = 0] short
    by simp
  have qi: "\<not> signal ?idle 0 SigFetch" "\<not> signal ?idle 0 SigPrepare"
    "\<not> signal ?idle 0 SigCheck" "\<not> signal ?idle 0 SigTail"
    by (simp_all add: example_client_def)
  have hi: "history ?idle 0 (arg_batch example_args) (last_read_message example_session) =
              Inr []"
    by (simp add: example_client_def)
  have g: "get_channel ?idle (arg_channel example_args) = Some (NamedChannel [99])"
    by (simp add: example_client_def)
  have pth: "get_file_path example_args (channel_name_of (NamedChannel [99])) = [97]"
    by (simp add: get_file_path_def example_args_def)
  have rd: "read_metadata example_disk
              (get_file_path example_args (channel_name_of (NamedChannel [99]))) = Inr (0, 0, 0)"
    unfolding pth by (rule read_fresh_frame) (simp add: example_disk_def)
  have hz: "history ?idle 0 (arg_batch example_args) (if (0::int) = 0 then None else Some 0) =
              Inr []"
    by (simp add: example_client_def)
  have second: "on_ready ?idle example_args id (Suc 0) example_disk =
     (Some (Exit 0), example_disk)"
    using loop_ends [OF h1 qi hi, where compress = id and fuel = 0 and p = "[97]"
        and ch = "NamedChannel [99]" and d = example_disk and last_id = 0
        and total_read = 0 and size_read = 0] g rd hz
    by simp
  from first second show ?thesis by simp
qed

section \<open>The transcript\<close>

lemma format_messages_acc:
  "format_messages formatted_log ms = formatted_log @ spec_transcript ms"
  by (induction ms arbitrary: formatted_log)
     (simp_all add: spec_transcript_def transcript_line_def)

lemma encode_utf8_append:
  "encode_utf8 xs = Inr a \<Longrightarrow> encode_utf8 ys = Inr b \<Longrightarrow> encode_utf8 (xs @ ys) = Inr (a @ b)"
  by (induction xs arbitrary: a) (auto split: sum.splits)

lemma encode_utf8_bytes: "encodable s \<Longrightarrow> encode_utf8 s = Inr (utf8_bytes s)"
  by (simp add: encodable_def utf8_bytes_def split: sum.splits)

lemma encode_transcript_line:
  assumes "encodable (author_display_name m)" and "encodable (content m)"
  shows "encode_utf8 (transcript_line m) =
           Inr (line_bytes (utf8_bytes (author_display_name m)) (utf8_bytes (content m)))"
proof -
  have h: "encode_utf8 [0, 60] = Inr [0x00, 0x3C]" by (simp add: utf8_char_def)
  have m: "encode_utf8 [62, 0] = Inr [0x3E, 0x00]" by (simp add: utf8_char_def)
  have t: "encode_utf8 [10] = Inr [0x0A]" by (simp add: utf8_char_def)
  note a = encode_utf8_bytes [OF assms(1)]
  note b = encode_utf8_bytes [OF assms(2)]
  show ?thesis
    unfolding transcript_line_def line_bytes_def
    by (intro encode_utf8_append h a m b t)
qed

lemma encode_spec_transcript:
  assumes "\<forall>m \<in> set ms. encodable (author_display_name m) \<and> encodable (content m)"
  shows "encode_utf8 (spec_transcript ms) =
           Inr (concat (map (\<lambda>m. line_bytes (utf8_bytes (author_display_name m))
                                    (utf8_bytes (content m)))
                          (filter (\<lambda>m. content m \<noteq> []) ms)))"
  using assms
proof (induction ms)
  case Nil
  then show ?case by (simp add: spec_transcript_def)
next
  case (Cons m ms)
  have rest: "encode_utf8 (spec_transcript ms) =
           Inr (concat (map (\<lambda>m. line_bytes (utf8_bytes (author_display_name m))
                                    (utf8_bytes (content m)))
                          (filter (\<lambda>m. content m \<noteq> []) ms)))"
    using Cons by simp
  show ?case
  proof (cases "content m = []")
    case True
    then show ?thesis using rest by (simp add: spec_transcript_def)
  next
    case False
    have line: "encode_utf8 (transcript_line m) =
           Inr (line_bytes (utf8_bytes (author_display_name m)) (utf8_bytes (content m)))"
      using Cons.prems by (intro encode_transcript_line) simp_all
    have "spec_transcript (m # ms) = transcript_line m @ spec_transcript ms"
      using False by (simp add: spec_transcript_def)
    then show ?thesis
      using encode_utf8_append [OF line rest] False by simp
  qed
qed

lemma read_rewritten_frame:
  assumes h: "header_accepted f" and a: "is_u64 a" and b: "is_u64 b" and c: "is_u64 c"
    and f': "files d p = Some (take 8 f @ counters_le a b c @ rest)"
  shows "read_metadata d p = Inr (a, b, c)"
proof -
  have l: "8 \<le> length f" using h by (rule header_accepted_length)
  have h': "header_accepted (take 8 f @ counters_le a b c @ rest)"
    using h by (rule header_accepted_frame)
  have "take 24 (drop 8 (take 8 f @ counters_le a b c @ rest)) = counters_le a b c"
    using l by (simp add: length_counters_le)
  then show ?thesis
    using read_metadata_accepted [OF f' h'] unpack_3Q_le [OF a b c]
    by (simp add: counters_le_def)
qed

lemma read_commit_disk:
  assumes "header_accepted f" and "is_u64 a" and "is_u64 b" and "is_u64 c"
  shows "read_metadata (commit_disk d p f (counters_le a b c) chunk) p = Inr (a, b, c)"
  using assms by (rule read_rewritten_frame) (simp add: commit_disk_def)

lemma turn_counts_all:
  assumes i: "\<not> in_critical_section s" and q: "\<not> signal cl n SigFetch"
    and hist: "history cl n (arg_batch args) (last_read_message s) = Inr ms"
  shows "total_messages_read (session_of (loop_body cl args compress p n s)) =
           total_messages_read s + int (length ms)"
  using q
  by (auto simp: loop_body_unfold [OF i] hist commit_unfold counted_fields
      split: sum.splits prod.splits option.splits)

text \<open>
  Claim C10. The transcript of a batch is the concatenation, in the order of the batch, of
  one line for each message whose body is not empty. When the names and the bodies can be
  encoded, the bytes that are compressed are the lines NUL, \<^verbatim>\<open><\<close>, author, \<^verbatim>\<open>>\<close>, NUL,
  body, newline, with NUL the byte 0. A message with an empty body adds nothing to the
  transcript, and every message of the batch, empty or not, is counted in
  \<^verbatim>\<open>total_messages_read\<close> and in the count that the commit writes to the frame.
\<close>

theorem transcript_of_batch:
  assumes "\<not> in_critical_section s" and "\<not> signal cl n SigFetch"
    and "\<not> signal cl n SigPrepare"
    and "history cl n (arg_batch args) (last_read_message s) = Inr ms" and "ms \<noteq> []"
    and "files (dsk s) p = Some f" and "header_accepted f"
    and "is_u64 (msg_id (last ms))"
    and "is_u64 (total_messages_read s + int (length ms))"
    and "is_u64 (uncompressed_size s + int (length (format_messages [] ms)))"
    and "\<forall>m \<in> set ms. encodable (author_display_name m) \<and> encodable (content m)"
  shows "format_messages [] ms =
           concat (map (\<lambda>m. [0, 60] @ author_display_name m @ [62, 0] @ content m @ [10])
                     (filter (\<lambda>m. content m \<noteq> []) ms)) \<and>
         encode_utf8 (format_messages [] ms) =
           Inr (concat (map (\<lambda>m. line_bytes (utf8_bytes (author_display_name m))
                                    (utf8_bytes (content m)))
                          (filter (\<lambda>m. content m \<noteq> []) ms))) \<and>
         total_messages_read (session_of (loop_body cl args compress p n s)) =
           total_messages_read s + int (length ms) \<and>
         read_metadata (dsk (session_of (loop_body cl args compress p n s))) p =
           Inr (msg_id (last ms), total_messages_read s + int (length ms),
                uncompressed_size s + int (length (format_messages [] ms)))"
proof -
  have t: "format_messages [] ms = spec_transcript ms"
    by (simp add: format_messages_acc)
  have c1: "format_messages [] ms =
           concat (map (\<lambda>m. [0, 60] @ author_display_name m @ [62, 0] @ content m @ [10])
                     (filter (\<lambda>m. content m \<noteq> []) ms))"
  proof -
    have "transcript_line =
            (\<lambda>m. [0, 60] @ author_display_name m @ [62, 0] @ content m @ [10])"
      by (rule ext) (simp add: transcript_line_def)
    then show ?thesis unfolding t spec_transcript_def by simp
  qed
  have c2: "encode_utf8 (format_messages [] ms) =
           Inr (concat (map (\<lambda>m. line_bytes (utf8_bytes (author_display_name m))
                                    (utf8_bytes (content m)))
                          (filter (\<lambda>m. content m \<noteq> []) ms)))"
    unfolding t using assms(11) by (rule encode_spec_transcript)
  have c3: "total_messages_read (session_of (loop_body cl args compress p n s)) =
           total_messages_read s + int (length ms)"
    using assms(1,2,4) by (rule turn_counts_all)
  have c4: "read_metadata (dsk (session_of (loop_body cl args compress p n s))) p =
           Inr (msg_id (last ms), total_messages_read s + int (length ms),
                uncompressed_size s + int (length (format_messages [] ms)))"
    unfolding turn_result [OF assms(1) assms(4-10) c2]
    using assms(2,3) read_commit_disk [OF assms(7-10)] by simp
  from c1 c2 c3 c4 show ?thesis by blast
qed

theorem transcript_of_batch_witness:
  "format_messages [] example_messages = [0, 60, 97, 62, 0, 104, 105, 10] \<and>
   encode_utf8 (format_messages [] example_messages) =
     Inr (line_bytes [97] [104, 105]) \<and>
   total_messages_read (session_of
      (loop_body (example_client False example_messages) example_args id [97] 0
         example_session)) = 2 \<and>
   read_metadata (dsk (session_of
      (loop_body (example_client False example_messages) example_args id [97] 0
         example_session))) [97] = Inr (9, 2, 8)"
proof -
  let ?cl = "example_client False example_messages"
  have h1: "\<not> in_critical_section example_session"
    by (simp add: example_session_def)
  have h2: "\<not> signal ?cl 0 SigFetch" and h3: "\<not> signal ?cl 0 SigPrepare"
    by (simp_all add: example_client_def)
  have h4: "history ?cl 0 (arg_batch example_args) (last_read_message example_session) =
              Inr example_messages"
    by (simp add: example_client_def)
  have h5: "example_messages \<noteq> []" by (simp add: example_messages_def)
  have h6: "files (dsk example_session) [97] = Some fresh_frame"
    by (simp add: example_session_def example_disk_def)
  have h8: "is_u64 (msg_id (last example_messages))"
    by (simp add: example_messages_def is_u64_def)
  have h9: "is_u64 (total_messages_read example_session + int (length example_messages))"
    by (simp add: example_messages_def example_session_def is_u64_def)
  have h10: "is_u64 (uncompressed_size example_session +
               int (length (format_messages [] example_messages)))"
    by (simp add: example_transcript example_session_def is_u64_def)
  have h11: "\<forall>m \<in> set example_messages.
               encodable (author_display_name m) \<and> encodable (content m)"
    by (simp add: example_messages_def encodable_def utf8_char_def)
  have u: "utf8_bytes [97] = [97]" "utf8_bytes [104, 105] = [104, 105]"
    by (simp_all add: utf8_bytes_def utf8_char_def)
  show ?thesis
    using transcript_of_batch [OF h1 h2 h3 h4 h5 h6 header_accepted_fresh h8 h9 h10 h11,
        of id]
    by (simp add: example_messages_def example_session_def u)
qed

section \<open>The size counter\<close>

lemma encode_ascii:
  "\<forall>c \<in> set s. c < 128 \<Longrightarrow> encode_utf8 s = Inr (map of_nat s)"
  by (induction s) (simp_all add: utf8_char_def)

lemma accented_transcript:
  "format_messages [] accented_messages = [0, 60, 97, 62, 0, 233, 10]"
  by (simp add: accented_messages_def)

lemma accented_transcript_bytes:
  "encode_utf8 [0, 60, 97, 62, 0, 233, 10] = Inr [0, 60, 97, 62, 0, 195, 169, 10]"
  by (simp add: utf8_char_def)

text \<open>
  Claim C6 fails on the code. The counter \<^verbatim>\<open>uncompressed_size\<close> grows by
  \<^verbatim>\<open>len(formatted_log)\<close>, the number of characters of the transcript, while the bytes that
  are compressed and appended are its UTF-8 encoding. On a batch of one message from
  \<^verbatim>\<open>a\<close> with the body U+00E9 the counter in memory and in the frame is 7, and the chunk
  that is appended is the compression of 8 bytes.
\<close>

theorem size_counts_characters:
  "uncompressed_size (session_of
      (loop_body (example_client False accented_messages) example_args compress [97] 0
         example_session)) = 7 \<and>
   read_metadata (dsk (session_of
      (loop_body (example_client False accented_messages) example_args compress [97] 0
         example_session))) [97] = Inr (5, 1, 7) \<and>
   writes (dsk (session_of
      (loop_body (example_client False accented_messages) example_args compress [97] 0
         example_session))) =
     [WroteAt [97] 8 (counters_le 5 1 7),
      WroteAt [97] 32 (compress [0, 60, 97, 62, 0, 195, 169, 10])] \<and>
   encode_utf8 (format_messages [] accented_messages) =
     Inr [0, 60, 97, 62, 0, 195, 169, 10] \<and>
   length [0, 60, 97, 62, 0, 195, 169, 10 :: byte] = 8"
proof -
  let ?cl = "example_client False accented_messages"
  have h1: "\<not> in_critical_section example_session"
    by (simp add: example_session_def)
  have q: "\<not> signal ?cl 0 SigFetch" "\<not> signal ?cl 0 SigPrepare" "\<not> signal ?cl 0 SigCheck"
    "\<not> signal ?cl 0 SigEnter" "\<not> signal ?cl 0 SigBetween" "\<not> signal ?cl 0 SigLeave"
    "\<not> signal ?cl 0 SigTail" "\<not> shutdown_event example_session"
    by (simp_all add: example_client_def example_session_def)
  have h4: "history ?cl 0 (arg_batch example_args) (last_read_message example_session) =
              Inr accented_messages"
    by (simp add: example_client_def)
  have h5: "accented_messages \<noteq> []" by (simp add: accented_messages_def)
  have h6: "files (dsk example_session) [97] = Some fresh_frame"
    by (simp add: example_session_def example_disk_def)
  have v: "msg_id (last accented_messages) = 5"
    "total_messages_read example_session + int (length accented_messages) = 1"
    "uncompressed_size example_session + int (length (format_messages [] accented_messages)) = 7"
    by (simp_all add: accented_transcript accented_messages_def example_session_def)
  have h8: "is_u64 (msg_id (last accented_messages))"
    and h9: "is_u64 (total_messages_read example_session + int (length accented_messages))"
    and h10: "is_u64 (uncompressed_size example_session +
               int (length (format_messages [] accented_messages)))"
    unfolding v by (simp_all add: is_u64_def)
  have h11: "encode_utf8 (format_messages [] accented_messages) =
               Inr [0, 60, 97, 62, 0, 195, 169, 10]"
    unfolding accented_transcript by (rule accented_transcript_bytes)
  have short: "int (length accented_messages) < arg_batch example_args"
    by (simp add: accented_messages_def example_args_def)
  have u: "is_u64 5" "is_u64 1" "is_u64 7" by (simp_all add: is_u64_def)
  have r: "loop_body ?cl example_args compress [97] 0 example_session =
     Break ((counted example_session accented_messages)
        \<lparr>in_critical_section := False, shutdown_event := False,
         dsk := commit_disk (dsk example_session) [97] fresh_frame (counters_le 5 1 7)
                  (compress [0, 60, 97, 62, 0, 195, 169, 10])\<rparr>)"
    using turn_result [OF h1 h4 h5 h6 header_accepted_fresh h8 h9 h10 h11,
        where compress = compress] q short
    unfolding v by simp
  have a: "uncompressed_size (session_of
      (loop_body ?cl example_args compress [97] 0 example_session)) = 7"
    unfolding r using v(3) by (simp add: counted_fields)
  have b: "read_metadata (dsk (session_of
      (loop_body ?cl example_args compress [97] 0 example_session))) [97] = Inr (5, 1, 7)"
    unfolding r using read_commit_disk [OF header_accepted_fresh u] by simp
  have c: "writes (dsk (session_of
      (loop_body ?cl example_args compress [97] 0 example_session))) =
     [WroteAt [97] 8 (counters_le 5 1 7),
      WroteAt [97] 32 (compress [0, 60, 97, 62, 0, 195, 169, 10])]"
    unfolding r
    by (simp add: commit_disk_def example_session_def example_disk_def fresh_frame_def
        MAGIC_ZSTD_HEADER_def)
  from a b c h11 show ?thesis by simp
qed

section \<open>The counters only advance\<close>

lemma pack_3Q_u64:
  assumes "struct_pack_3Q order [a, b, c] = Inr x"
  shows "is_u64 a \<and> is_u64 b \<and> is_u64 c"
  using assms
  by (auto simp: struct_pack_3Q_def struct_pack_uint_def is_u64_def
      split: sum.splits if_splits)

lemma overwrite_metadata_Inr:
  assumes "overwrite_metadata d p [a, b, c] = Inr d1"
  shows "\<exists>f. files d p = Some f \<and> header_accepted f \<and>
           is_u64 a \<and> is_u64 b \<and> is_u64 c \<and>
           d1 = \<lparr>files = (files d)(p \<mapsto> take 8 f @ counters_le a b c @ drop 32 f),
                 writes = writes d @ [WroteAt p 8 (counters_le a b c)]\<rparr>"
proof -
  obtain f where f: "files d p = Some f"
    using assms by (auto simp: overwrite_metadata_def split: option.splits)
  have h: "header_accepted f"
    using assms f
    by (auto simp: overwrite_metadata_def header_accepted_def Let_def
        split: if_splits sum.splits)
  obtain x where "struct_pack_3Q LittleEndian [a, b, c] = Inr x"
    using assms f h by (auto simp: overwrite_metadata_accepted split: sum.splits)
  then have u: "is_u64 a \<and> is_u64 b \<and> is_u64 c" by (rule pack_3Q_u64)
  have "overwrite_metadata d p [a, b, c] =
     Inr \<lparr>files = (files d)(p \<mapsto> take 8 f @ counters_le a b c @ drop 32 f),
          writes = writes d @ [WroteAt p 8 (counters_le a b c)]\<rparr>"
    using f h u by (intro overwrite_metadata_result) simp_all
  with assms f h u show ?thesis by auto
qed

lemma decode_counters_le:
  "is_u64 a \<Longrightarrow> is_u64 b \<Longrightarrow> is_u64 c \<Longrightarrow> decode_counters (counters_le a b c) = (a, b, c)"
  by (simp add: decode_counters_def counters_le_def unpack_3Q_le)

lemma committed_counters_append:
  "committed_counters p (xs @ ys) = committed_counters p xs @ committed_counters p ys"
proof -
  have "payload_writes p (xs @ ys) = payload_writes p xs @ payload_writes p ys"
    by (induction p xs rule: payload_writes.induct) simp_all
  then show ?thesis by (simp add: committed_counters_def)
qed

lemma commit_cases:
  assumes "commit compress sig p [a, b, c] log_text s = R"
  shows "(\<exists>e s'. R = Inl (Raised e, s') \<and> dsk s' = dsk s) \<or>
         (\<exists>f. files (dsk s) p = Some f \<and> header_accepted f \<and>
               is_u64 a \<and> is_u64 b \<and> is_u64 c \<and>
               ((\<exists>e s'. R = Inl (Raised e, s') \<and>
                   dsk s' = \<lparr>files = (files (dsk s))(p \<mapsto> take 8 f @ counters_le a b c @ drop 32 f),
                             writes = writes (dsk s) @ [WroteAt p 8 (counters_le a b c)]\<rparr>) \<or>
                (\<exists>chunk. R = Inr (s\<lparr>in_critical_section := False,
                     shutdown_event := shutdown_event s \<or> sig SigEnter \<or> sig SigBetween \<or> sig SigLeave,
                     dsk := commit_disk (dsk s) p f (counters_le a b c) chunk\<rparr>))))"
proof (cases "overwrite_metadata (dsk s) p [a, b, c]")
  case (Inl e)
  then have "R = Inl (Raised e, s\<lparr>in_critical_section := True,
                            shutdown_event := shutdown_event s \<or> sig SigEnter\<rparr>)"
    using assms by (simp add: commit_unfold)
  then show ?thesis by simp
next
  case (Inr d1)
  then obtain f where f: "files (dsk s) p = Some f" and h: "header_accepted f"
    and u: "is_u64 a" "is_u64 b" "is_u64 c"
    and d1: "d1 = \<lparr>files = (files (dsk s))(p \<mapsto> take 8 f @ counters_le a b c @ drop 32 f),
                  writes = writes (dsk s) @ [WroteAt p 8 (counters_le a b c)]\<rparr>"
    using overwrite_metadata_Inr by blast
  have f1: "files d1 p = Some (take 8 f @ counters_le a b c @ drop 32 f)"
    using d1 by simp
  show ?thesis
  proof (cases "encode_utf8 log_text")
    case (Inl e)
    have "append_batch compress d1 p log_text = (Some e, d1)"
      using f1 Inl by (rule append_batch_raises)
    then have "R = Inl (Raised e, s\<lparr>in_critical_section := True,
        shutdown_event := shutdown_event s \<or> sig SigEnter \<or> sig SigBetween, dsk := d1\<rparr>)"
      using assms Inr by (simp add: commit_unfold)
    then show ?thesis using f h u d1 by auto
  next
    case (Inr text_bytes)
    have "commit compress sig p [a, b, c] log_text s =
       Inr (s\<lparr>in_critical_section := False,
            shutdown_event := shutdown_event s \<or> sig SigEnter \<or> sig SigBetween \<or> sig SigLeave,
            dsk := commit_disk (dsk s) p f (counters_le a b c) (compress text_bytes)\<rparr>)"
      using f h u Inr by (rule commit_succeeds)
    then show ?thesis using f h u assms by auto
  qed
qed

lemma half_commit_counters:
  assumes "is_u64 a" and "is_u64 b" and "is_u64 c"
  shows "committed_counters p [WroteAt p 8 (counters_le a b c)] = [(a, b, c)]"
  using assms by (simp add: committed_counters_def decode_counters_le)

lemma full_commit_counters:
  assumes "is_u64 a" and "is_u64 b" and "is_u64 c"
  shows "committed_counters p
           [WroteAt p 8 (counters_le a b c), WroteAt p (max 32 (length f)) chunk] = [(a, b, c)]"
  using assms by (simp add: committed_counters_def decode_counters_le)

lemma batch_advances:
  assumes pre: "fetch_after_cursor cl"
    and hist: "history cl n lim (last_read_message s) = Inr ms" and ne: "ms \<noteq> []"
  shows "advances (cursor_of s, total_messages_read s, uncompressed_size s)
           (msg_id (last ms), total_messages_read s + int (length ms), c)"
proof -
  have "last ms \<in> set ms" using ne by simp
  then have "cursor_of s < msg_id (last ms)"
    using pre hist unfolding fetch_after_cursor_def cursor_of_def by blast
  then show ?thesis using ne by (simp add: advances_def)
qed

lemma turn_advances:
  assumes pre: "fetch_after_cursor cl" and i: "\<not> in_critical_section s"
    and rd: "read_metadata (dsk s) p =
               Inr (cursor_of s, total_messages_read s, uncompressed_size s)"
  shows "\<exists>new. writes (dsk (session_of (loop_body cl args compress p n s))) =
                 writes (dsk s) @ new \<and>
           ((committed_counters p new = [] \<and>
             read_metadata (dsk (session_of (loop_body cl args compress p n s))) p =
               Inr (cursor_of s, total_messages_read s, uncompressed_size s) \<and>
             (\<forall>s'. loop_body cl args compress p n s \<noteq> Continue s')) \<or>
            (\<exists>v. committed_counters p new = [v] \<and>
               advances (cursor_of s, total_messages_read s, uncompressed_size s) v \<and>
               read_metadata (dsk (session_of (loop_body cl args compress p n s))) p = Inr v \<and>
               (\<forall>s'. loop_body cl args compress p n s = Continue s' \<longrightarrow>
                  \<not> in_critical_section s' \<and>
                  (cursor_of s', total_messages_read s', uncompressed_size s') = v)))"
  (is "\<exists>new. ?P new")
proof -
  let ?r = "loop_body cl args compress p n s"
  have same: "?P []" if "dsk (session_of ?r) = dsk s" and "\<forall>s'. ?r \<noteq> Continue s'"
    using that rd by (simp add: committed_counters_def)
  show ?thesis
  proof (cases "signal cl n SigFetch")
    case True
    then have "?r = Stop (Exit 0) s" by (simp add: loop_body_unfold [OF i])
    then have "?P []" by (intro same) simp_all
    then show ?thesis ..
  next
    case nf: False
    show ?thesis
    proof (cases "history cl n (arg_batch args) (last_read_message s)")
      case (Inl e)
      then have "?r = Stop (Raised e) s" using nf by (simp add: loop_body_unfold [OF i])
      then have "?P []" by (intro same) simp_all
      then show ?thesis ..
    next
      case (Inr ms)
      show ?thesis
      proof (cases "ms = []")
        case True
        then have "?r = Break s" using nf Inr by (simp add: loop_body_unfold [OF i])
        then have "?P []" by (intro same) simp_all
        then show ?thesis ..
      next
        case ne: False
        let ?a = "msg_id (last ms)"
        let ?b = "total_messages_read s + int (length ms)"
        let ?c = "uncompressed_size s + int (length (format_messages [] ms))"
        have adv: "advances (cursor_of s, total_messages_read s, uncompressed_size s) (?a, ?b, ?c)"
          using pre Inr ne by (rule batch_advances)
        show ?thesis
        proof (cases "signal cl n SigPrepare")
          case True
          then have "?r = Stop (Exit 0) (counted s ms)"
            using nf Inr ne by (simp add: loop_body_unfold [OF i])
          then have "?P []" by (intro same) (simp_all add: counted_fields)
          then show ?thesis ..
        next
          case np: False
          let ?R = "commit compress (signal cl n) p [?a, ?b, ?c] (format_messages [] ms)
                      (counted s ms)"
          have r: "?r = (case ?R of
                     Inl (out, s') \<Rightarrow> Stop out s'
                   | Inr s4 \<Rightarrow>
                       if signal cl n SigCheck \<or> shutdown_event s4 \<or> signal cl n SigTail
                       then Stop (Exit 0) s4
                       else if int (length ms) < arg_batch args then Break s4
                       else Continue s4)"
            using nf Inr ne np by (simp add: loop_body_unfold [OF i] new_data_of_def)
          consider
            (failed) e s' where "?R = Inl (Raised e, s')" "dsk s' = dsk (counted s ms)"
          | (half) f e s' where "files (dsk (counted s ms)) p = Some f" "header_accepted f"
              "is_u64 ?a" "is_u64 ?b" "is_u64 ?c" "?R = Inl (Raised e, s')"
              "dsk s' = \<lparr>files = (files (dsk (counted s ms)))
                            (p \<mapsto> take 8 f @ counters_le ?a ?b ?c @ drop 32 f),
                         writes = writes (dsk (counted s ms)) @
                                    [WroteAt p 8 (counters_le ?a ?b ?c)]\<rparr>"
          | (full) f chunk where "files (dsk (counted s ms)) p = Some f" "header_accepted f"
              "is_u64 ?a" "is_u64 ?b" "is_u64 ?c"
              "?R = Inr ((counted s ms)\<lparr>in_critical_section := False,
                     shutdown_event := shutdown_event (counted s ms) \<or> signal cl n SigEnter \<or>
                        signal cl n SigBetween \<or> signal cl n SigLeave,
                     dsk := commit_disk (dsk (counted s ms)) p f (counters_le ?a ?b ?c) chunk\<rparr>)"
            using commit_cases [OF refl, of compress "signal cl n" p ?a ?b ?c
                "format_messages [] ms" "counted s ms"]
            by blast
          then show ?thesis
          proof cases
            case failed
            then have "?r = Stop (Raised e) s'" using r by simp
            then have "?P []" using failed by (intro same) (simp_all add: counted_fields)
            then show ?thesis ..
          next
            case half
            have rr: "?r = Stop (Raised e) s'" using r half by simp
            have w: "writes (dsk s') = writes (dsk s) @ [WroteAt p 8 (counters_le ?a ?b ?c)]"
              using half by (simp add: counted_fields)
            have fl: "files (dsk s') p = Some (take 8 f @ counters_le ?a ?b ?c @ drop 32 f)"
              using half by simp
            have rdn: "read_metadata (dsk s') p = Inr (?a, ?b, ?c)"
              using half(2-5) fl by (rule read_rewritten_frame)
            have cc: "committed_counters p [WroteAt p 8 (counters_le ?a ?b ?c)] = [(?a, ?b, ?c)]"
              using half(3-5) by (rule half_commit_counters)
            have "?P [WroteAt p 8 (counters_le ?a ?b ?c)]"
              unfolding rr cc using w adv rdn by simp
            then show ?thesis ..
          next
            case full
            let ?s4 = "(counted s ms)\<lparr>in_critical_section := False,
                     shutdown_event := shutdown_event (counted s ms) \<or> signal cl n SigEnter \<or>
                        signal cl n SigBetween \<or> signal cl n SigLeave,
                     dsk := commit_disk (dsk (counted s ms)) p f (counters_le ?a ?b ?c) chunk\<rparr>"
            let ?new = "[WroteAt p 8 (counters_le ?a ?b ?c), WroteAt p (max 32 (length f)) chunk]"
            have so: "session_of ?r = ?s4" using r full by simp
            have w: "writes (dsk ?s4) = writes (dsk s) @ ?new"
              by (simp add: commit_disk_def counted_fields)
            have rdn: "read_metadata (dsk ?s4) p = Inr (?a, ?b, ?c)"
              using read_commit_disk [OF full(2-5)] by simp
            have cc: "committed_counters p ?new = [(?a, ?b, ?c)]"
              using full(3-5) by (rule full_commit_counters)
            have cont: "\<forall>s'. ?r = Continue s' \<longrightarrow>
                  \<not> in_critical_section s' \<and>
                  (cursor_of s', total_messages_read s', uncompressed_size s') = (?a, ?b, ?c)"
            proof (intro allI impI)
              fix s' assume "?r = Continue s'"
              then have "s' = ?s4" using so by simp
              then show "\<not> in_critical_section s' \<and>
                  (cursor_of s', total_messages_read s', uncompressed_size s') = (?a, ?b, ?c)"
                by (simp add: cursor_of_def counted_fields)
            qed
            have "?P ?new"
              unfolding so cc using w adv rdn cont [unfolded so] cont by simp
            then show ?thesis ..
          qed
        qed
      qed
    qed
  qed
qed

lemma loop_advances:
  assumes pre: "fetch_after_cursor cl"
  shows "\<not> in_critical_section s \<Longrightarrow>
         read_metadata (dsk s) p =
           Inr (cursor_of s, total_messages_read s, uncompressed_size s) \<Longrightarrow>
         \<exists>new. writes (dsk (final_session (session_loop cl args compress p fuel n s))) =
                 writes (dsk s) @ new \<and>
           successively advances
             ((cursor_of s, total_messages_read s, uncompressed_size s) #
              committed_counters p new) \<and>
           read_metadata (dsk (final_session (session_loop cl args compress p fuel n s))) p =
             Inr (last ((cursor_of s, total_messages_read s, uncompressed_size s) #
                        committed_counters p new))"
proof (induction fuel arbitrary: n s)
  case 0
  have "committed_counters p [] = []" by (simp add: committed_counters_def)
  then show ?case using "0.prems" by (intro exI [of _ "[]"]) simp
next
  case (Suc fuel)
  let ?st = "(cursor_of s, total_messages_read s, uncompressed_size s)"
  let ?r = "loop_body cl args compress p n s"
  let ?run = "session_loop cl args compress p (Suc fuel) n s"
  obtain new1 where w1: "writes (dsk (session_of ?r)) = writes (dsk s) @ new1"
    and alt: "(committed_counters p new1 = [] \<and>
             read_metadata (dsk (session_of ?r)) p = Inr ?st \<and>
             (\<forall>s'. ?r \<noteq> Continue s')) \<or>
            (\<exists>v. committed_counters p new1 = [v] \<and> advances ?st v \<and>
               read_metadata (dsk (session_of ?r)) p = Inr v \<and>
               (\<forall>s'. ?r = Continue s' \<longrightarrow>
                  \<not> in_critical_section s' \<and>
                  (cursor_of s', total_messages_read s', uncompressed_size s') = v))"
    using turn_advances [OF pre Suc.prems, of args compress n] by blast
  show ?case
  proof (cases "\<exists>s'. ?r = Continue s'")
    case False
    then have fin: "final_session ?run = session_of ?r"
      by (cases ?r) simp_all
    from alt show ?thesis
    proof
      assume a: "committed_counters p new1 = [] \<and>
             read_metadata (dsk (session_of ?r)) p = Inr ?st \<and>
             (\<forall>s'. ?r \<noteq> Continue s')"
      show ?thesis unfolding fin using w1 a by (intro exI [of _ new1]) simp
    next
      assume "\<exists>v. committed_counters p new1 = [v] \<and> advances ?st v \<and>
               read_metadata (dsk (session_of ?r)) p = Inr v \<and>
               (\<forall>s'. ?r = Continue s' \<longrightarrow>
                  \<not> in_critical_section s' \<and>
                  (cursor_of s', total_messages_read s', uncompressed_size s') = v)"
      then obtain v where b: "committed_counters p new1 = [v]" "advances ?st v"
        "read_metadata (dsk (session_of ?r)) p = Inr v" by blast
      show ?thesis unfolding fin using w1 b by (intro exI [of _ new1]) simp
    qed
  next
    case True
    then obtain s' where c: "?r = Continue s'" by blast
    then have so: "session_of ?r = s'" by simp
    have fin: "final_session ?run =
                 final_session (session_loop cl args compress p fuel (Suc n) s')"
      using c by simp
    from alt c obtain v where b: "committed_counters p new1 = [v]" "advances ?st v"
      "read_metadata (dsk s') p = Inr v" "\<not> in_critical_section s'"
      "(cursor_of s', total_messages_read s', uncompressed_size s') = v"
      unfolding so by blast
    have rd': "read_metadata (dsk s') p =
                 Inr (cursor_of s', total_messages_read s', uncompressed_size s')"
      using b(3,5) by simp
    obtain new2 where
      w2: "writes (dsk (final_session (session_loop cl args compress p fuel (Suc n) s'))) =
             writes (dsk s') @ new2"
      and ch2: "successively advances (v # committed_counters p new2)"
      and rd2: "read_metadata
                  (dsk (final_session (session_loop cl args compress p fuel (Suc n) s'))) p =
                Inr (last (v # committed_counters p new2))"
      using Suc.IH [OF b(4) rd', of "Suc n"] unfolding b(5) by blast
    have cc: "committed_counters p (new1 @ new2) = v # committed_counters p new2"
      using b(1) by (simp add: committed_counters_append)
    show ?thesis
      unfolding fin
      using w1 [unfolded so] w2 ch2 rd2 b(2)
      by (intro exI [of _ "new1 @ new2"]) (simp add: cc)
  qed
qed

lemma stored_readable: "read_metadata d p = Inr v \<Longrightarrow> stored d p = [v]"
  by (simp add: stored_def)

lemma stored_absent: "files d p = None \<Longrightarrow> stored d p = []"
  by (simp add: stored_def read_metadata_def)

lemma initial_counters:
  "committed_counters p
     [Truncated p, WroteAt p 0 MAGIC_ZSTD_HEADER, WroteAt p 4 [24, 0, 0, 0],
      WroteAt p 8 (replicate 24 0)] = [(0, 0, 0)]"
proof -
  have "replicate 24 (0::byte) = counters_le 0 0 0"
    by (simp add: counters_le_def to_bytes_le_zero replicate_add [symmetric])
  then show ?thesis
    by (simp add: committed_counters_def decode_counters_le is_u64_def)
qed

lemma on_ready_advances:
  assumes pre: "fetch_after_cursor cl" and sp: "session_path cl args p"
    and ok: "files d p = None \<or> (\<exists>v. read_metadata d p = Inr v)"
  shows "\<exists>new. writes (snd (on_ready cl args compress fuel d)) = writes d @ new \<and>
           successively advances (stored d p @ committed_counters p new) \<and>
           stored (snd (on_ready cl args compress fuel d)) p =
             (if stored d p @ committed_counters p new = [] then []
              else [last (stored d p @ committed_counters p new)]) \<and>
           (files (snd (on_ready cl args compress fuel d)) p = None \<or>
            (\<exists>v. read_metadata (snd (on_ready cl args compress fuel d)) p = Inr v))"
  (is "\<exists>new. ?Q new")
proof (cases "get_channel cl (arg_channel args)")
  case None
  then have u: "snd (on_ready cl args compress fuel d) = d" by (simp add: on_ready_def)
  have e: "committed_counters p [] = []" by (simp add: committed_counters_def)
  have "?Q []"
    unfolding u e using ok by (auto simp: stored_readable stored_absent)
  then show ?thesis ..
next
  case (Some ch)
  then have p: "get_file_path args (channel_name_of ch) = p"
    using sp by (simp add: session_path_def)
  from ok show ?thesis
  proof
    assume "\<exists>v. read_metadata d p = Inr v"
    then obtain l c b where rd: "read_metadata d p = Inr (l, c, b)"
      by (metis prod_cases3)
    have "files d p \<noteq> None" using rd by (rule read_metadata_file)
    then obtain f0 where ex: "files d p = Some f0" by blast
    let ?s0 = "\<lparr>last_read_message = (if l = 0 then None else Some l),
                total_messages_read = c, uncompressed_size = b,
                in_critical_section = False, shutdown_event = False, dsk = d\<rparr>"
    have st: "(cursor_of ?s0, total_messages_read ?s0, uncompressed_size ?s0) = (l, c, b)"
      by (simp add: cursor_of_def)
    have i0: "\<not> in_critical_section ?s0" by simp
    have rd0: "read_metadata (dsk ?s0) p =
                 Inr (cursor_of ?s0, total_messages_read ?s0, uncompressed_size ?s0)"
      unfolding st using rd by simp
    have res: "snd (on_ready cl args compress fuel d) =
                 dsk (final_session (session_loop cl args compress p fuel 0 ?s0))"
      using Some p ex rd
      by (simp add: on_ready_def Let_def split: run.splits)
    obtain new where w: "writes (dsk (final_session (session_loop cl args compress p fuel 0 ?s0))) =
                  writes d @ new"
      and chn: "successively advances ((l, c, b) # committed_counters p new)"
      and rdn: "read_metadata (dsk (final_session (session_loop cl args compress p fuel 0 ?s0))) p =
                  Inr (last ((l, c, b) # committed_counters p new))"
      using loop_advances [OF pre i0 rd0, of args compress fuel 0] unfolding st by auto
    have q3: "stored (dsk (final_session (session_loop cl args compress p fuel 0 ?s0))) p =
                [last ((l, c, b) # committed_counters p new)]"
      using rdn by (rule stored_readable)
    have q4: "\<exists>v. read_metadata
                (dsk (final_session (session_loop cl args compress p fuel 0 ?s0))) p = Inr v"
      using rdn by blast
    have "?Q new"
      unfolding res stored_readable [OF rd] using w chn q3 q4 by simp
    then show ?thesis ..
  next
    assume ab: "files d p = None"
    let ?ini = "[Truncated p, WroteAt p 0 MAGIC_ZSTD_HEADER, WroteAt p 4 [24, 0, 0, 0],
                 WroteAt p 8 (replicate 24 0)]"
    let ?d1 = "\<lparr>files = (files d)(p \<mapsto> fresh_frame), writes = writes d @ ?ini\<rparr>"
    have ini: "initialize_metadata d p = Inr ?d1" by (rule initialize_metadata_result)
    have rd1: "read_metadata ?d1 p = Inr (0, 0, 0)"
      by (rule read_fresh_frame) simp
    let ?s0 = "\<lparr>last_read_message = None,
                total_messages_read = 0, uncompressed_size = 0,
                in_critical_section = False, shutdown_event = False, dsk = ?d1\<rparr>"
    have st: "(cursor_of ?s0, total_messages_read ?s0, uncompressed_size ?s0) = (0, 0, 0)"
      by (simp add: cursor_of_def)
    have i0: "\<not> in_critical_section ?s0" by simp
    have rd0: "read_metadata (dsk ?s0) p =
                 Inr (cursor_of ?s0, total_messages_read ?s0, uncompressed_size ?s0)"
      unfolding st using rd1 by simp
    have res: "snd (on_ready cl args compress fuel d) =
                 dsk (final_session (session_loop cl args compress p fuel 0 ?s0))"
      by (simp add: on_ready_def Let_def Some p ab ini rd1 split: run.splits)
    obtain new where w: "writes (dsk (final_session (session_loop cl args compress p fuel 0 ?s0))) =
                  writes ?d1 @ new"
      and chn: "successively advances ((0, 0, 0) # committed_counters p new)"
      and rdn: "read_metadata (dsk (final_session (session_loop cl args compress p fuel 0 ?s0))) p =
                  Inr (last ((0, 0, 0) # committed_counters p new))"
      using loop_advances [OF pre i0 rd0, of args compress fuel 0] unfolding st by auto
    have cc: "committed_counters p (?ini @ new) = (0, 0, 0) # committed_counters p new"
      unfolding committed_counters_append initial_counters by simp
    have q3: "stored (dsk (final_session (session_loop cl args compress p fuel 0 ?s0))) p =
                [last ((0, 0, 0) # committed_counters p new)]"
      using rdn by (rule stored_readable)
    have q4: "\<exists>v. read_metadata
                (dsk (final_session (session_loop cl args compress p fuel 0 ?s0))) p = Inr v"
      using rdn by blast
    have w': "writes (snd (on_ready cl args compress fuel d)) = writes d @ (?ini @ new)"
      unfolding res w by simp
    have c': "successively advances (stored d p @ committed_counters p (?ini @ new))"
      unfolding cc stored_absent [OF ab] using chn by simp
    have s': "stored (snd (on_ready cl args compress fuel d)) p =
             (if stored d p @ committed_counters p (?ini @ new) = [] then []
              else [last (stored d p @ committed_counters p (?ini @ new))])"
      unfolding cc stored_absent [OF ab] res q3 by simp
    have r': "files (snd (on_ready cl args compress fuel d)) p = None \<or>
            (\<exists>v. read_metadata (snd (on_ready cl args compress fuel d)) p = Inr v)"
      unfolding res using q4 by (rule disjI2)
    from w' c' s' r' have "?Q (?ini @ new)" by (intro conjI)
    then show ?thesis by (rule exI [of _ "?ini @ new"])
  qed
qed

lemma chain_join:
  assumes a: "successively P A" and y: "successively P (S @ Y)"
    and s: "S = (if A = [] then [] else [last A])"
  shows "successively P (A @ Y) \<and>
         (if S @ Y = [] then [] else [last (S @ Y)]) =
         (if A @ Y = [] then [] else [last (A @ Y)])"
proof (cases "A = []")
  case True
  then show ?thesis using y s by simp
next
  case False
  then have s': "S = [last A]" using s by simp
  have "Y = [] \<or> P (last A) (hd Y) \<and> successively P Y"
    using y unfolding s' by (simp add: successively_Cons)
  then have "successively P (A @ Y)"
    using a False by (auto simp: successively_append_iff)
  then show ?thesis using False s' by simp
qed

lemma chain_le:
  "successively advances (x # xs) \<Longrightarrow>
   fst x \<le> fst (last (x # xs)) \<and> fst (snd x) \<le> fst (snd (last (x # xs)))"
proof (induction xs arbitrary: x)
  case Nil
  then show ?case by simp
next
  case (Cons y ys)
  then have "advances x y" and "successively advances (y # ys)" by simp_all
  then show ?case using Cons.IH [of y] by (auto simp: advances_def)
qed

lemma sessions_advance:
  assumes all: "\<forall>(cl, args, fuel) \<in> set runs. fetch_after_cursor cl \<and> session_path cl args p"
  shows "files d p = None \<or> (\<exists>v. read_metadata d p = Inr v) \<Longrightarrow>
     \<exists>new. writes (resumed_sessions runs compress d) = writes d @ new \<and>
        successively advances (stored d p @ committed_counters p new) \<and>
        stored (resumed_sessions runs compress d) p =
          (if stored d p @ committed_counters p new = [] then []
           else [last (stored d p @ committed_counters p new)])"
  using all
proof (induction runs arbitrary: d)
  case Nil
  have e: "committed_counters p [] = []" by (simp add: committed_counters_def)
  have "stored d p = [] \<or> (\<exists>v. stored d p = [v])"
    by (simp add: stored_def split: sum.splits)
  then show ?case by (intro exI [of _ "[]"]) (auto simp: e)
next
  case (Cons run rest)
  obtain cl args fuel where run: "run = (cl, args, fuel)" by (cases run) auto
  have pre: "fetch_after_cursor cl" and sp: "session_path cl args p"
    using Cons.prems(2) run by simp_all
  let ?d1 = "snd (on_ready cl args compress fuel d)"
  obtain new1 where w1: "writes ?d1 = writes d @ new1"
    and c1: "successively advances (stored d p @ committed_counters p new1)"
    and s1: "stored ?d1 p =
             (if stored d p @ committed_counters p new1 = [] then []
              else [last (stored d p @ committed_counters p new1)])"
    and ok1: "files ?d1 p = None \<or> (\<exists>v. read_metadata ?d1 p = Inr v)"
    using on_ready_advances [OF pre sp Cons.prems(1), of compress fuel] by blast
  have rest: "\<forall>(cl, args, fuel) \<in> set rest. fetch_after_cursor cl \<and> session_path cl args p"
    using Cons.prems(2) by simp
  obtain new2 where w2: "writes (resumed_sessions rest compress ?d1) = writes ?d1 @ new2"
    and c2: "successively advances (stored ?d1 p @ committed_counters p new2)"
    and s2: "stored (resumed_sessions rest compress ?d1) p =
          (if stored ?d1 p @ committed_counters p new2 = [] then []
           else [last (stored ?d1 p @ committed_counters p new2)])"
    using Cons.IH [OF ok1 rest] by blast
  note j = chain_join [OF c1 c2 s1]
  have r: "resumed_sessions (run # rest) compress d = resumed_sessions rest compress ?d1"
    unfolding run by simp
  have a: "writes (resumed_sessions (run # rest) compress d) = writes d @ (new1 @ new2)"
    unfolding r w2 w1 by simp
  have b: "successively advances (stored d p @ committed_counters p (new1 @ new2))"
    using j by (simp add: committed_counters_append)
  have c: "stored (resumed_sessions (run # rest) compress d) p =
          (if stored d p @ committed_counters p (new1 @ new2) = [] then []
           else [last (stored d p @ committed_counters p (new1 @ new2))])"
    unfolding r s2 using j by (simp add: committed_counters_append)
  from a b c show ?case by (intro exI [of _ "new1 @ new2"] conjI)
qed

lemma archive_client_after_cursor: "fetch_after_cursor (archive_client ms)"
  by (auto simp: fetch_after_cursor_def archive_client_def)

lemma archive_client_path: "session_path (archive_client ms) example_args [97]"
  by (simp add: session_path_def archive_client_def get_file_path_def example_args_def)

lemma two_sessions_stored:
  "stored (resumed_sessions
      [(archive_client example_messages, example_args, 2),
       (archive_client example_messages, example_args, 2)] id example_disk) [97] = [(9, 2, 8)]"
  by code_simp

text \<open>
  Claim C5. Let sessions run one after the other on the archive at \<open>p\<close>, each over a
  history that returns only messages with an id above the cursor it is given, starting
  from a disk where the archive is readable or not there yet. The write log only grows.
  The counters stored at the start followed by the counters of every payload written at
  offset 8 since, in the order of the writes, form a chain in which the id of the last
  message and the count of messages both grow strictly at every step; the counters stored
  at the end are the last of the chain, so they are not below the ones stored at the
  start.
\<close>

theorem counters_only_advance:
  assumes "\<forall>(cl, args, fuel) \<in> set runs. fetch_after_cursor cl \<and> session_path cl args p"
    and "files d p = None \<or> (\<exists>v. read_metadata d p = Inr v)"
  shows "take (length (writes d)) (writes (resumed_sessions runs compress d)) = writes d \<and>
         successively advances
           (stored d p @
            committed_counters p
              (drop (length (writes d)) (writes (resumed_sessions runs compress d)))) \<and>
         stored (resumed_sessions runs compress d) p =
           (if stored d p @
               committed_counters p
                 (drop (length (writes d)) (writes (resumed_sessions runs compress d))) = []
            then []
            else [last (stored d p @
               committed_counters p
                 (drop (length (writes d)) (writes (resumed_sessions runs compress d))))]) \<and>
         (\<forall>v \<in> set (stored d p). \<forall>w \<in> set (stored (resumed_sessions runs compress d) p).
            fst v \<le> fst w \<and> fst (snd v) \<le> fst (snd w))"
proof -
  obtain new where w: "writes (resumed_sessions runs compress d) = writes d @ new"
    and c: "successively advances (stored d p @ committed_counters p new)"
    and s: "stored (resumed_sessions runs compress d) p =
          (if stored d p @ committed_counters p new = [] then []
           else [last (stored d p @ committed_counters p new)])"
    using sessions_advance [OF assms, of compress] by blast
  have dr: "drop (length (writes d)) (writes (resumed_sessions runs compress d)) = new"
    unfolding w by simp
  have tk: "take (length (writes d)) (writes (resumed_sessions runs compress d)) = writes d"
    unfolding w by simp
  have le: "\<forall>v \<in> set (stored d p). \<forall>w \<in> set (stored (resumed_sessions runs compress d) p).
            fst v \<le> fst w \<and> fst (snd v) \<le> fst (snd w)"
  proof (cases "stored d p")
    case Nil
    then show ?thesis by simp
  next
    case (Cons x xs)
    then have x: "stored d p = [x]" by (simp add: stored_def split: sum.splits)
    have "successively advances (x # committed_counters p new)" using c x by simp
    then have "fst x \<le> fst (last (x # committed_counters p new)) \<and>
               fst (snd x) \<le> fst (snd (last (x # committed_counters p new)))"
      by (rule chain_le)
    then show ?thesis unfolding s x by simp
  qed
  show ?thesis unfolding dr using tk c s le by (intro conjI)
qed

theorem counters_only_advance_witness:
  "successively advances
     (stored example_disk [97] @
      committed_counters [97]
        (drop (length (writes example_disk))
           (writes (resumed_sessions
              [(archive_client example_messages, example_args, 2),
               (archive_client example_messages, example_args, 2)] id example_disk)))) \<and>
   stored example_disk [97] = [(0, 0, 0)] \<and>
   stored (resumed_sessions
      [(archive_client example_messages, example_args, 2),
       (archive_client example_messages, example_args, 2)] id example_disk) [97] = [(9, 2, 8)]"
proof -
  let ?runs = "[(archive_client example_messages, example_args, 2::nat),
                (archive_client example_messages, example_args, 2)]"
  have h1: "\<forall>(cl, args, fuel) \<in> set ?runs. fetch_after_cursor cl \<and> session_path cl args [97]"
    by (simp add: archive_client_after_cursor archive_client_path)
  have rd: "read_metadata example_disk [97] = Inr (0, 0, 0)"
    by (rule read_fresh_frame) (simp add: example_disk_def)
  then have h2: "files example_disk [97] = None \<or> (\<exists>v. read_metadata example_disk [97] = Inr v)"
    by blast
  have st: "stored example_disk [97] = [(0, 0, 0)]"
    using rd by (rule stored_readable)
  show ?thesis
    using counters_only_advance [OF h1 h2, of id] st two_sessions_stored by simp
qed

section \<open>The commit of a batch that is not ASCII\<close>

lemma accented_turn:
  "loop_body (example_client False accented_messages) example_args compress [97] 0
     example_session =
   Break ((counted example_session accented_messages)
      \<lparr>in_critical_section := False, shutdown_event := False,
       dsk := commit_disk example_disk [97] fresh_frame (counters_le 5 1 7)
                (compress [0, 60, 97, 62, 0, 195, 169, 10])\<rparr>)"
proof -
  let ?cl = "example_client False accented_messages"
  have h1: "\<not> in_critical_section example_session"
    by (simp add: example_session_def)
  have q: "\<not> signal ?cl 0 SigFetch" "\<not> signal ?cl 0 SigPrepare" "\<not> signal ?cl 0 SigCheck"
    "\<not> signal ?cl 0 SigEnter" "\<not> signal ?cl 0 SigBetween" "\<not> signal ?cl 0 SigLeave"
    "\<not> signal ?cl 0 SigTail" "\<not> shutdown_event example_session"
    by (simp_all add: example_client_def example_session_def)
  have h4: "history ?cl 0 (arg_batch example_args) (last_read_message example_session) =
              Inr accented_messages"
    by (simp add: example_client_def)
  have h5: "accented_messages \<noteq> []" by (simp add: accented_messages_def)
  have h6: "files (dsk example_session) [97] = Some fresh_frame"
    by (simp add: example_session_def example_disk_def)
  have v: "msg_id (last accented_messages) = 5"
    "total_messages_read example_session + int (length accented_messages) = 1"
    "uncompressed_size example_session + int (length (format_messages [] accented_messages)) = 7"
    "dsk example_session = example_disk"
    by (simp_all add: accented_transcript accented_messages_def example_session_def)
  have h8: "is_u64 (msg_id (last accented_messages))"
    and h9: "is_u64 (total_messages_read example_session + int (length accented_messages))"
    and h10: "is_u64 (uncompressed_size example_session +
               int (length (format_messages [] accented_messages)))"
    unfolding v by (simp_all add: is_u64_def)
  have h11: "encode_utf8 (format_messages [] accented_messages) =
               Inr [0, 60, 97, 62, 0, 195, 169, 10]"
    unfolding accented_transcript by (rule accented_transcript_bytes)
  have short: "int (length accented_messages) < arg_batch example_args"
    by (simp add: accented_messages_def example_args_def)
  show ?thesis
    using turn_result [OF h1 h4 h5 h6 header_accepted_fresh h8 h9 h10 h11,
        where compress = compress] q short
    unfolding v by simp
qed

text \<open>
  Claim C1 fails on the code, by the defect of claim C6. On a new archive and a batch of
  one message from \<^verbatim>\<open>a\<close> with the body U+00E9, the turn makes the two writes of the commit
  in the order of the claim, the payload at offset 8 and then the chunk at the end of the
  file, with the id 5 and the count 1; but the third counter of the payload is 7, the
  number of characters of the transcript, where the claim has the bytes stored before
  (0) plus the length of the transcript that is appended, which is 8 bytes.
\<close>

theorem commit_counts_characters:
  "loop_body (example_client False accented_messages) example_args compress [97] 0
     example_session =
   Break ((counted example_session accented_messages)
      \<lparr>in_critical_section := False, shutdown_event := False,
       dsk := \<lparr>files = Map.empty([97] \<mapsto>
                  MAGIC_ZSTD_HEADER @ [24, 0, 0, 0] @ counters_le 5 1 7 @
                  compress [0, 60, 97, 62, 0, 195, 169, 10]),
               writes = [WroteAt [97] 8 (counters_le 5 1 7),
                         WroteAt [97] 32 (compress [0, 60, 97, 62, 0, 195, 169, 10])]\<rparr>\<rparr>) \<and>
   read_metadata example_disk [97] = Inr (0, 0, 0) \<and>
   struct_unpack_3Q LittleEndian (counters_le 5 1 7) = Inr (5, 1, 7) \<and>
   encode_utf8 (format_messages [] accented_messages) =
     Inr [0, 60, 97, 62, 0, 195, 169, 10] \<and>
   length [0, 60, 97, 62, 0, 195, 169, 10 :: byte] = 8"
proof -
  have d: "commit_disk example_disk [97] fresh_frame (counters_le 5 1 7)
             (compress [0, 60, 97, 62, 0, 195, 169, 10]) =
           \<lparr>files = Map.empty([97] \<mapsto>
                  MAGIC_ZSTD_HEADER @ [24, 0, 0, 0] @ counters_le 5 1 7 @
                  compress [0, 60, 97, 62, 0, 195, 169, 10]),
               writes = [WroteAt [97] 8 (counters_le 5 1 7),
                         WroteAt [97] 32 (compress [0, 60, 97, 62, 0, 195, 169, 10])]\<rparr>"
    by (simp add: commit_disk_def example_disk_def fresh_frame_def MAGIC_ZSTD_HEADER_def)
  have a: "loop_body (example_client False accented_messages) example_args compress [97] 0
     example_session =
   Break ((counted example_session accented_messages)
      \<lparr>in_critical_section := False, shutdown_event := False,
       dsk := \<lparr>files = Map.empty([97] \<mapsto>
                  MAGIC_ZSTD_HEADER @ [24, 0, 0, 0] @ counters_le 5 1 7 @
                  compress [0, 60, 97, 62, 0, 195, 169, 10]),
               writes = [WroteAt [97] 8 (counters_le 5 1 7),
                         WroteAt [97] 32 (compress [0, 60, 97, 62, 0, 195, 169, 10])]\<rparr>\<rparr>)"
    unfolding accented_turn d ..
  have b: "read_metadata example_disk [97] = Inr (0, 0, 0)"
    by (rule read_fresh_frame) (simp add: example_disk_def)
  have u: "is_u64 5" "is_u64 1" "is_u64 7" by (simp_all add: is_u64_def)
  have c: "struct_unpack_3Q LittleEndian (counters_le 5 1 7) = Inr (5, 1, 7)"
    unfolding counters_le_def using u by (rule unpack_3Q_le)
  have e: "encode_utf8 (format_messages [] accented_messages) =
     Inr [0, 60, 97, 62, 0, 195, 169, 10]"
    unfolding accented_transcript by (rule accented_transcript_bytes)
  from a b c e show ?thesis by simp
qed

section \<open>When the session initializes the archive\<close>

lemma truncations_append: "truncations (xs @ ys) = truncations xs @ truncations ys"
  by (induction xs rule: truncations.induct) simp_all

lemma overwrite_metadata_writes:
  "overwrite_metadata d p v = Inr d1 \<Longrightarrow> \<exists>x. writes d1 = writes d @ [WroteAt p 8 x]"
  by (auto simp: overwrite_metadata_def file_write_def Let_def
      split: option.splits if_splits sum.splits)

lemma append_batch_writes:
  "\<exists>new. writes (snd (append_batch compress d p t)) = writes d @ new \<and> truncations new = []"
proof (cases "files d p")
  case None
  show ?thesis
  proof (cases "encode_utf8 t")
    case (Inl e)
    then have "writes (snd (append_batch compress d p t)) = writes d @ [Created p]"
      using None by (simp add: append_batch_def)
    then show ?thesis by (intro exI [of _ "[Created p]"]) simp
  next
    case (Inr tb)
    then have "writes (snd (append_batch compress d p t)) =
                 writes d @ [Created p, WroteAt p 0 (compress tb)]"
      using None by (simp add: append_batch_def file_write_def Let_def)
    then show ?thesis by (intro exI [of _ "[Created p, WroteAt p 0 (compress tb)]"]) simp
  qed
next
  case (Some f)
  show ?thesis
  proof (cases "encode_utf8 t")
    case (Inl e)
    then have "writes (snd (append_batch compress d p t)) = writes d @ []"
      using Some by (simp add: append_batch_def)
    then show ?thesis by (intro exI [of _ "[]"]) simp
  next
    case (Inr tb)
    then have "writes (snd (append_batch compress d p t)) =
                 writes d @ [WroteAt p (length f) (compress tb)]"
      using Some by (simp add: append_batch_def file_write_def Let_def)
    then show ?thesis by (intro exI [of _ "[WroteAt p (length f) (compress tb)]"]) simp
  qed
qed

lemma commit_writes:
  "\<exists>new. writes (dsk (case commit compress sig p v t s of
                        Inl (out, s') \<Rightarrow> s' | Inr s' \<Rightarrow> s')) = writes (dsk s) @ new \<and>
         truncations new = []"
proof (cases "overwrite_metadata (dsk s) p v")
  case (Inl e)
  then have "writes (dsk (case commit compress sig p v t s of
                        Inl (out, s') \<Rightarrow> s' | Inr s' \<Rightarrow> s')) = writes (dsk s) @ []"
    by (simp add: commit_unfold)
  then show ?thesis by (intro exI [of _ "[]"]) simp
next
  case (Inr d1)
  then obtain x where w1: "writes d1 = writes (dsk s) @ [WroteAt p 8 x]"
    using overwrite_metadata_writes by blast
  obtain new where w2: "writes (snd (append_batch compress d1 p t)) = writes d1 @ new"
    and t2: "truncations new = []"
    using append_batch_writes by blast
  have "dsk (case commit compress sig p v t s of
                        Inl (out, s') \<Rightarrow> s' | Inr s' \<Rightarrow> s') = snd (append_batch compress d1 p t)"
    using Inr by (simp add: commit_unfold split: prod.splits option.splits)
  then have "writes (dsk (case commit compress sig p v t s of
                        Inl (out, s') \<Rightarrow> s' | Inr s' \<Rightarrow> s')) =
               writes (dsk s) @ ([WroteAt p 8 x] @ new)"
    using w1 w2 by simp
  then show ?thesis
    using t2 by (intro exI [of _ "[WroteAt p 8 x] @ new"]) (simp add: truncations_append)
qed

lemma turn_no_truncation:
  assumes i: "\<not> in_critical_section s"
  shows "\<exists>new. writes (dsk (session_of (loop_body cl args compress p n s))) =
                 writes (dsk s) @ new \<and> truncations new = []"
proof -
  let ?r = "loop_body cl args compress p n s"
  have same: ?thesis if "dsk (session_of ?r) = dsk s"
    using that by (intro exI [of _ "[]"]) simp
  show ?thesis
  proof (cases "signal cl n SigFetch")
    case True
    then have "?r = Stop (Exit 0) s" by (simp add: loop_body_unfold [OF i])
    then show ?thesis by (intro same) simp
  next
    case nf: False
    show ?thesis
    proof (cases "history cl n (arg_batch args) (last_read_message s)")
      case (Inl e)
      then have "?r = Stop (Raised e) s" using nf by (simp add: loop_body_unfold [OF i])
      then show ?thesis by (intro same) simp
    next
      case (Inr ms)
      show ?thesis
      proof (cases "ms = [] \<or> signal cl n SigPrepare")
        case True
        then have "?r = Break s \<or> ?r = Stop (Exit 0) (counted s ms)"
          using nf Inr by (auto simp: loop_body_unfold [OF i])
        then show ?thesis by (intro same) (auto simp: counted_fields)
      next
        case False
        let ?c = "commit compress (signal cl n) p (new_data_of s ms) (format_messages [] ms)
                    (counted s ms)"
        have "session_of ?r = (case ?c of Inl (out, s') \<Rightarrow> s' | Inr s' \<Rightarrow> s')"
          using nf Inr False
          by (simp add: loop_body_unfold [OF i] split: sum.splits prod.splits)
        then show ?thesis
          using commit_writes [of compress "signal cl n" p "new_data_of s ms"
              "format_messages [] ms" "counted s ms"]
          by (simp add: counted_fields)
      qed
    qed
  qed
qed

lemma continue_leaves_section:
  assumes "\<not> in_critical_section s" and "loop_body cl args compress p n s = Continue s'"
  shows "\<not> in_critical_section s'"
  using assms(2)
  by (auto simp: loop_body_unfold [OF assms(1)] split: sum.splits prod.splits if_splits
      dest: commit_leaves_section)

lemma loop_no_truncation:
  "\<not> in_critical_section s \<Longrightarrow>
   \<exists>new. writes (dsk (final_session (session_loop cl args compress p fuel n s))) =
           writes (dsk s) @ new \<and> truncations new = []"
proof (induction fuel arbitrary: n s)
  case 0
  show ?case by (intro exI [of _ "[]"]) simp
next
  case (Suc fuel)
  let ?r = "loop_body cl args compress p n s"
  obtain new1 where w1: "writes (dsk (session_of ?r)) = writes (dsk s) @ new1"
    and t1: "truncations new1 = []"
    using turn_no_truncation [OF Suc.prems] by blast
  show ?case
  proof (cases ?r)
    case (Continue s')
    have i': "\<not> in_critical_section s'"
      using Suc.prems Continue by (rule continue_leaves_section)
    obtain new2 where
      w2: "writes (dsk (final_session (session_loop cl args compress p fuel (Suc n) s'))) =
             writes (dsk s') @ new2"
      and t2: "truncations new2 = []"
      using Suc.IH [OF i'] by blast
    have "writes (dsk (final_session (session_loop cl args compress p (Suc fuel) n s))) =
            writes (dsk s) @ (new1 @ new2)"
      using Continue w1 w2 by simp
    then show ?thesis
      using t1 t2 by (intro exI [of _ "new1 @ new2"]) (simp add: truncations_append)
  next
    case (Break s')
    then have "writes (dsk (final_session (session_loop cl args compress p (Suc fuel) n s))) =
                 writes (dsk s) @ new1"
      using w1 by simp
    then show ?thesis using t1 by (intro exI [of _ new1]) simp
  next
    case (Stop out s')
    then have "writes (dsk (final_session (session_loop cl args compress p (Suc fuel) n s))) =
                 writes (dsk s) @ new1"
      using w1 by simp
    then show ?thesis using t1 by (intro exI [of _ new1]) simp
  qed
qed

lemma on_ready_truncations:
  assumes sp: "session_path cl args p"
  shows "\<exists>new. writes (snd (on_ready cl args compress fuel d)) = writes d @ new \<and>
           truncations new =
             (if get_channel cl (arg_channel args) \<noteq> None \<and> files d p = None then [p]
              else [])"
proof (cases "get_channel cl (arg_channel args)")
  case None
  then have "writes (snd (on_ready cl args compress fuel d)) = writes d @ []"
    by (simp add: on_ready_def)
  then show ?thesis using None by (intro exI [of _ "[]"]) simp
next
  case (Some ch)
  then have p: "get_file_path args (channel_name_of ch) = p"
    using sp by (simp add: session_path_def)
  show ?thesis
  proof (cases "files d p")
    case ab: None
    let ?ini = "[Truncated p, WroteAt p 0 MAGIC_ZSTD_HEADER, WroteAt p 4 [24, 0, 0, 0],
                 WroteAt p 8 (replicate 24 0)]"
    let ?d1 = "\<lparr>files = (files d)(p \<mapsto> fresh_frame), writes = writes d @ ?ini\<rparr>"
    have ini: "initialize_metadata d p = Inr ?d1" by (rule initialize_metadata_result)
    have rd1: "read_metadata ?d1 p = Inr (0, 0, 0)"
      by (rule read_fresh_frame) simp
    let ?s0 = "\<lparr>last_read_message = None,
                total_messages_read = 0, uncompressed_size = 0,
                in_critical_section = False, shutdown_event = False, dsk = ?d1\<rparr>"
    have res: "snd (on_ready cl args compress fuel d) =
                 dsk (final_session (session_loop cl args compress p fuel 0 ?s0))"
      by (simp add: on_ready_def Let_def Some p ab ini rd1 split: run.splits)
    have i0: "\<not> in_critical_section ?s0" by simp
    obtain new where
      w: "writes (dsk (final_session (session_loop cl args compress p fuel 0 ?s0))) =
            writes (dsk ?s0) @ new"
      and t: "truncations new = []"
      using loop_no_truncation [OF i0] by blast
    have "writes (snd (on_ready cl args compress fuel d)) = writes d @ (?ini @ new)"
      unfolding res w by simp
    moreover have "truncations (?ini @ new) = [p]"
      using t by (simp add: truncations_append)
    ultimately show ?thesis
      using Some ab by (intro exI [of _ "?ini @ new"]) simp
  next
    case (Some f)
    note ex = this
    show ?thesis
    proof (cases "read_metadata d p")
      case (Inl e)
      then have "writes (snd (on_ready cl args compress fuel d)) = writes d @ []"
        using \<open>get_channel cl (arg_channel args) = Some ch\<close> p ex
        by (simp add: on_ready_def Let_def)
      then show ?thesis using ex by (intro exI [of _ "[]"]) simp
    next
      case (Inr v)
      obtain l c b where v: "v = (l, c, b)" by (cases v) auto
      let ?s0 = "\<lparr>last_read_message = (if l = 0 then None else Some l),
                  total_messages_read = c, uncompressed_size = b,
                  in_critical_section = False, shutdown_event = False, dsk = d\<rparr>"
      have res: "snd (on_ready cl args compress fuel d) =
                   dsk (final_session (session_loop cl args compress p fuel 0 ?s0))"
        using \<open>get_channel cl (arg_channel args) = Some ch\<close> p ex Inr v
        by (simp add: on_ready_def Let_def split: run.splits)
      have i0: "\<not> in_critical_section ?s0" by simp
      obtain new where
        w: "writes (dsk (final_session (session_loop cl args compress p fuel 0 ?s0))) =
              writes (dsk ?s0) @ new"
        and t: "truncations new = []"
        using loop_no_truncation [OF i0] by blast
      have "writes (snd (on_ready cl args compress fuel d)) = writes d @ new"
        unfolding res w by simp
      then show ?thesis using t ex by (intro exI [of _ new]) simp
    qed
  qed
qed

text \<open>
  Claim C7, as amended. \<^verbatim>\<open>initialize_metadata\<close> never fails on the file being there:
  whether or not the path exists, it opens the path with mode \<^verbatim>\<open>'wb'\<close>, which empties
  the file, and leaves there a file of 32 bytes, the magic, the length field 24 and three
  zero counters. The session calls it only after it has found no file at the path: a
  session on the path \<open>p\<close> empties no file when there is a file at \<open>p\<close>, and empties the
  file at \<open>p\<close> once, and no other, when there is none and the channel is found.
\<close>

theorem initialize_metadata_guarded:
  assumes "session_path cl args p"
  shows "initialize_metadata d0 q =
           Inr \<lparr>files = (files d0)(q \<mapsto> MAGIC_ZSTD_HEADER @ [24, 0, 0, 0] @ replicate 24 0),
                writes = writes d0 @ [Truncated q, WroteAt q 0 MAGIC_ZSTD_HEADER,
                                      WroteAt q 4 [24, 0, 0, 0], WroteAt q 8 (replicate 24 0)]\<rparr> \<and>
         take (length (writes d)) (writes (snd (on_ready cl args compress fuel d))) = writes d \<and>
         truncations (drop (length (writes d)) (writes (snd (on_ready cl args compress fuel d)))) =
           (if get_channel cl (arg_channel args) \<noteq> None \<and> files d p = None then [p] else [])"
proof -
  have a: "initialize_metadata d0 q =
           Inr \<lparr>files = (files d0)(q \<mapsto> MAGIC_ZSTD_HEADER @ [24, 0, 0, 0] @ replicate 24 0),
                writes = writes d0 @ [Truncated q, WroteAt q 0 MAGIC_ZSTD_HEADER,
                                      WroteAt q 4 [24, 0, 0, 0], WroteAt q 8 (replicate 24 0)]\<rparr>"
    using initialize_metadata_result [of d0 q] by (simp add: fresh_frame_def)
  obtain new where w: "writes (snd (on_ready cl args compress fuel d)) = writes d @ new"
    and t: "truncations new =
             (if get_channel cl (arg_channel args) \<noteq> None \<and> files d p = None then [p]
              else [])"
    using on_ready_truncations [OF assms, of compress fuel d] by blast
  have b: "take (length (writes d)) (writes (snd (on_ready cl args compress fuel d))) = writes d"
    unfolding w by simp
  have c: "truncations (drop (length (writes d)) (writes (snd (on_ready cl args compress fuel d)))) =
           (if get_channel cl (arg_channel args) \<noteq> None \<and> files d p = None then [p] else [])"
    unfolding w using t by simp
  from a b c show ?thesis by (intro conjI)
qed

lemma example_client_path:
  "session_path (example_client sig ms) example_args [97]"
  by (simp add: session_path_def example_client_def get_file_path_def example_args_def)

theorem initialize_metadata_guarded_witness:
  "truncations (drop (length (writes example_disk))
      (writes (snd (on_ready (example_client False example_messages) example_args id 2
                      example_disk)))) = [] \<and>
   truncations (drop (length (writes \<lparr>files = Map.empty, writes = []\<rparr>))
      (writes (snd (on_ready (example_client False example_messages) example_args id 2
                      \<lparr>files = Map.empty, writes = []\<rparr>)))) = [[97]] \<and>
   initialize_metadata \<lparr>files = Map.empty, writes = []\<rparr> [97] =
     Inr \<lparr>files = Map.empty([97] \<mapsto> MAGIC_ZSTD_HEADER @ [24, 0, 0, 0] @ replicate 24 0),
          writes = [Truncated [97], WroteAt [97] 0 MAGIC_ZSTD_HEADER,
                    WroteAt [97] 4 [24, 0, 0, 0], WroteAt [97] 8 (replicate 24 0)]\<rparr>"
proof -
  let ?cl = "example_client False example_messages"
  have sp: "session_path ?cl example_args [97]" by (rule example_client_path)
  have g: "get_channel ?cl (arg_channel example_args) \<noteq> None"
    by (simp add: example_client_def)
  have there: "files example_disk [97] \<noteq> None" by (simp add: example_disk_def)
  have a: "truncations (drop (length (writes example_disk))
      (writes (snd (on_ready ?cl example_args id 2 example_disk)))) = []"
    using initialize_metadata_guarded [OF sp, where d = example_disk and compress = id
        and fuel = 2] there
    by simp
  have b: "truncations (drop (length (writes \<lparr>files = Map.empty, writes = []\<rparr>))
      (writes (snd (on_ready ?cl example_args id 2 \<lparr>files = Map.empty, writes = []\<rparr>)))) =
      [[97]]"
    using initialize_metadata_guarded [OF sp, where d = "\<lparr>files = Map.empty, writes = []\<rparr>"
        and compress = id and fuel = 2] g
    by simp
  have c: "initialize_metadata \<lparr>files = Map.empty, writes = []\<rparr> [97] =
     Inr \<lparr>files = Map.empty([97] \<mapsto> MAGIC_ZSTD_HEADER @ [24, 0, 0, 0] @ replicate 24 0),
          writes = [Truncated [97], WroteAt [97] 0 MAGIC_ZSTD_HEADER,
                    WroteAt [97] 4 [24, 0, 0, 0], WroteAt [97] 8 (replicate 24 0)]\<rparr>"
    using initialize_metadata_guarded [OF sp, where d0 = "\<lparr>files = Map.empty, writes = []\<rparr>"
        and q = "[97]"]
    by simp
  from a b c show ?thesis by (intro conjI)
qed

end
